theory Spec2Isabelle
  imports
    Complex_Main
    "HOL-Library.Sublist"
    "HOL-Library.Finite_Map"
    "HOL-Library.Char_ord"
    "HOL-Library.List_Lexorder"
begin

section \<open>Data model\<close>

text \<open>
  The TypeScript types of \<^verbatim>\<open>src/app/page.tsx\<close>, \<^verbatim>\<open>src/app/analyzer/page.tsx\<close> and the
  editor page (second document of \<^verbatim>\<open>src/app/layout.tsx\<close>). An optional field
  \<^verbatim>\<open>f?: T\<close> is a field of type \<open>T option\<close>, \<open>None\<close> standing for \<^verbatim>\<open>undefined\<close>;
  a field that holds \<^verbatim>\<open>undefined\<close> and a field that is absent are not told apart, as
  the optional field types do not tell them apart. A JavaScript \<^verbatim>\<open>number\<close> that holds
  a count is a \<open>nat\<close>, a level is an \<open>int\<close>. The field \<^verbatim>\<open>extension\<close> that page.tsx
  adds to \<^verbatim>\<open>DirectoryEntry\<close> is read by no function modelled here and is left out.
\<close>

datatype node_kind = Folder | File

record DirectoryEntry =
  e_kind :: node_kind
  e_name :: string
  e_path :: string
  e_level :: int
  e_supported :: "bool option"

datatype TreeNode =
  TreeNode (n_name: string) (n_path: string) (n_kind: node_kind) (n_level: int)
    (n_supported: "bool option") (n_children: "TreeNode list option")

record CryptoFunction =
  cf_name :: "string option"
  cf_line_start :: "nat option"
  cf_content :: "string option"
  cf_type :: "string option"

record CryptoSnippet =
  cs_name :: "string option"
  cs_line_start :: "nat option"
  cs_code :: "string option"
  cs_type :: "string option"

record BasicCryptoAnalysis =
  file_path :: string
  file_name :: string
  file_extension :: string
  has_crypto :: bool
  crypto_imports :: "string list option"
  crypto_functions :: "CryptoFunction list option"
  crypto_patterns_found :: "string list option"
  crypto_algorithms_detected :: "(string \<times> string) list list option"
  code_snippets :: "CryptoSnippet list option"

record CryptoSummary =
  security_level :: "string option"
  algorithms_used :: "string list option"
  crypto_functions_identified :: "string list option"
  data_being_hashed :: "string list option"
  vulnerabilities :: "string list option"
  recommendations :: "string list option"

record GeminiReview =
  original_analysis :: "BasicCryptoAnalysis option"
  gemini_analysis :: "string option"
  crypto_summary :: "CryptoSummary option"

record AnalysisResult =
  status :: "string option"
  total_files :: "nat option"
  crypto_files_found :: "nat option"
  message :: "string option"
  basic_analysis :: "BasicCryptoAnalysis list option"
  detailed_reviews :: "GeminiReview list option"

text \<open>
  \<^verbatim>\<open>FilesCollectionEntry = { analysis: BasicCryptoAnalysis; review?: GeminiReview }\<close>.
  \<^verbatim>\<open>getFilesCollection\<close> stores in \<^verbatim>\<open>analysis\<close> either a review's
  \<^verbatim>\<open>original_analysis\<close> or, through the cast
  \<^verbatim>\<open>review as unknown as BasicCryptoAnalysis\<close>, the review object itself. The cast
  changes no value, so the field holds one of two kinds of object. Reading a
  \<^verbatim>\<open>BasicCryptoAnalysis\<close> field of a review object yields \<^verbatim>\<open>undefined\<close>: a
  \<^verbatim>\<open>GeminiReview\<close> declares none of them.
\<close>

datatype analysis_obj = Analysis BasicCryptoAnalysis | ReviewObject GeminiReview

record FilesCollectionEntry =
  analysis :: analysis_obj
  review :: "GeminiReview option"

fun obj_file_path :: "analysis_obj \<Rightarrow> string option" where
  "obj_file_path (Analysis a) = Some (file_path a)"
| "obj_file_path (ReviewObject r) = None"





section \<open>Files collection\<close>

text \<open>
  \<^verbatim>\<open>getFilesCollection\<close> (page.tsx 1673-1689, editor page 82-93, analyzer page 35-40;
  the three copies are the same function). \<^verbatim>\<open>xs?.length\<close> is truthy when the array
  is present and not empty. \<^verbatim>\<open>a || b\<close> on an optional object is \<open>a\<close> when present.
  \<^verbatim>\<open>Boolean(x)\<close> of an object is true.
\<close>

fun has_length :: "'a list option \<Rightarrow> bool" where
  "has_length None = False"
| "has_length (Some xs) = (xs \<noteq> [])"

fun Boolean_obj :: "analysis_obj \<Rightarrow> bool" where
  "Boolean_obj (Analysis a) = True"
| "Boolean_obj (ReviewObject r) = True"

definition review_entry :: "GeminiReview \<Rightarrow> FilesCollectionEntry" where
  "review_entry rv =
     \<lparr>analysis = (case original_analysis rv of Some a \<Rightarrow> Analysis a | None \<Rightarrow> ReviewObject rv),
      review = Some rv\<rparr>"

definition analysis_entry :: "BasicCryptoAnalysis \<Rightarrow> FilesCollectionEntry" where
  "analysis_entry a = \<lparr>analysis = Analysis a, review = None\<rparr>"

definition getFilesCollection :: "AnalysisResult option \<Rightarrow> FilesCollectionEntry list" where
  "getFilesCollection result =
     (case result of
        None \<Rightarrow> []
      | Some res \<Rightarrow>
          if has_length (detailed_reviews res)
          then filter (\<lambda>entry. Boolean_obj (analysis entry))
                 (map review_entry (the (detailed_reviews res)))
          else if has_length (basic_analysis res)
          then map analysis_entry (the (basic_analysis res))
          else [])"

section \<open>Findings projector\<close>






text \<open>
  \<^verbatim>\<open>getFolderCount\<close> (page.tsx 648-656, editor page 198-206): the loop over
  \<^verbatim>\<open>Object.entries(findingsCountByPath)\<close>; \<open>counts\<close> is the list of these entries, in
  whatever order \<^verbatim>\<open>Object.entries\<close> gives them.
\<close>

definition startsWith :: "string \<Rightarrow> string \<Rightarrow> bool" where
  "startsWith s p = (take (length p) s = p)"

definition endsWith :: "string \<Rightarrow> string \<Rightarrow> bool" where
  "endsWith s p = (length p \<le> length s \<and> drop (length s - length p) s = p)"

definition getFolderCount :: "(string \<times> nat) list \<Rightarrow> string \<Rightarrow> nat" where
  "getFolderCount counts folderPath =
     (if folderPath = [] then 0
      else
        let prefix = (if endsWith folderPath ''/'' then folderPath else folderPath @ ''/'')
        in fold (\<lambda>(p, v) sum. if startsWith p prefix then sum + v else sum) counts 0)"

text \<open>
  \<^verbatim>\<open>findings\<close> (page.tsx 1062-1074). \<^verbatim>\<open>new Set(arr)\<close> adds the elements of
  \<^verbatim>\<open>arr\<close> in order, skipping one already in the set; \<^verbatim>\<open>Array.from\<close> lists the set
  in insertion order; \<^verbatim>\<open>filter(Boolean)\<close> keeps the strings that are not empty.
\<close>

definition Set_add :: "string \<Rightarrow> string list \<Rightarrow> string list" where
  "Set_add x s = (if x \<in> set s then s else s @ [x])"

definition Array_from_Set :: "string list \<Rightarrow> string list" where
  "Array_from_Set arr = fold Set_add arr []"

definition Boolean_string :: "string \<Rightarrow> bool" where
  "Boolean_string s = (s \<noteq> [])"

definition uniq :: "string list \<Rightarrow> string list" where
  "uniq arr = filter Boolean_string (Array_from_Set arr)"

definition push_summary :: "GeminiReview \<Rightarrow> string list \<times> string list \<Rightarrow> string list \<times> string list" where
  "push_summary rv acc =
     (case acc of (v, r) \<Rightarrow>
        (case crypto_summary rv of
           None \<Rightarrow> (v, r)
         | Some sm \<Rightarrow>
             (if has_length (vulnerabilities sm) then v @ the (vulnerabilities sm) else v,
              if has_length (recommendations sm) then r @ the (recommendations sm) else r)))"

definition findings :: "AnalysisResult option \<Rightarrow> string list \<times> string list" where
  "findings analysisResult =
     (let (v, r) =
        (case analysisResult of
           None \<Rightarrow> ([], [])
         | Some res \<Rightarrow>
             if has_length (detailed_reviews res)
             then fold push_summary (the (detailed_reviews res)) ([], [])
             else ([], []))
      in (uniq v, uniq r))"

text \<open>
  The specification's words for the aggregation: the arrays of every review's summary,
  concatenated (an absent result, review list, summary or array is empty), deduplicated
  keeping the first occurrence, the empty strings removed.
\<close>

fun first_seen :: "string list \<Rightarrow> string list" where
  "first_seen [] = []"
| "first_seen (x # xs) = x # first_seen (filter (\<lambda>y. y \<noteq> x) xs)"

definition reviews_of :: "AnalysisResult option \<Rightarrow> GeminiReview list" where
  "reviews_of analysisResult =
     (case analysisResult of
        None \<Rightarrow> []
      | Some res \<Rightarrow> (case detailed_reviews res of None \<Rightarrow> [] | Some rs \<Rightarrow> rs))"

definition summary_vulnerabilities :: "GeminiReview \<Rightarrow> string list" where
  "summary_vulnerabilities rv =
     (case crypto_summary rv of
        None \<Rightarrow> []
      | Some sm \<Rightarrow> (case vulnerabilities sm of None \<Rightarrow> [] | Some xs \<Rightarrow> xs))"

definition summary_recommendations :: "GeminiReview \<Rightarrow> string list" where
  "summary_recommendations rv =
     (case crypto_summary rv of
        None \<Rightarrow> []
      | Some sm \<Rightarrow> (case recommendations sm of None \<Rightarrow> [] | Some xs \<Rightarrow> xs))"

definition review_with :: "string list option \<Rightarrow> string list option \<Rightarrow> GeminiReview" where
  "review_with vs rs =
     \<lparr>original_analysis = None, gemini_analysis = None,
      crypto_summary = Some \<lparr>security_level = None, algorithms_used = None,
        crypto_functions_identified = None, data_being_hashed = None,
        vulnerabilities = vs, recommendations = rs\<rparr>\<rparr>"

definition result_with :: "BasicCryptoAnalysis list option \<Rightarrow> GeminiReview list option \<Rightarrow> AnalysisResult" where
  "result_with bs rvs =
     \<lparr>status = None, total_files = None, crypto_files_found = None, message = None,
      basic_analysis = bs, detailed_reviews = rvs\<rparr>"






section \<open>Tree builder from directory entries\<close>

text \<open>
  \<^verbatim>\<open>buildTree\<close> (page.tsx 48-82, analyzer page 24-33) and \<^verbatim>\<open>buildTreeFromEntries\<close>
  (editor page 95-116) are the same loop. The loop creates one object per entry and keeps
  references to it in \<^verbatim>\<open>tree\<close>, in \<^verbatim>\<open>stack\<close> and in the \<^verbatim>\<open>children\<close> array of its
  parent; \<^verbatim>\<open>parent.children.push(node)\<close> mutates an object that is reachable from
  \<^verbatim>\<open>tree\<close>. The model keeps the objects in a store: a list of nodes, an object's reference
  being its index; \<^verbatim>\<open>children\<close>, \<^verbatim>\<open>tree\<close> and \<^verbatim>\<open>stack\<close> hold references.
  The head of the list \<open>stack\<close> is the top of the stack, \<^verbatim>\<open>stack[stack.length - 1]\<close>.
\<close>

record HeapNode =
  h_name :: string
  h_path :: string
  h_kind :: node_kind
  h_level :: int
  h_supported :: "bool option"
  h_children :: "nat list option"

record build_state =
  heap :: "HeapNode list"
  tree :: "nat list"
  stack :: "nat list"

definition new_node :: "DirectoryEntry \<Rightarrow> HeapNode" where
  "new_node entry =
     \<lparr>h_name = e_name entry, h_path = e_path entry, h_kind = e_kind entry,
      h_level = e_level entry, h_supported = e_supported entry,
      h_children = (if e_kind entry = Folder then Some [] else None)\<rparr>"

text \<open>\<^verbatim>\<open>while (stack.length && stack[stack.length - 1].level >= entry.level) stack.pop()\<close>\<close>

fun pop_closed :: "HeapNode list \<Rightarrow> int \<Rightarrow> nat list \<Rightarrow> nat list" where
  "pop_closed h lvl [] = []"
| "pop_closed h lvl (a # rest) =
     (if h_level (h ! a) \<ge> lvl then pop_closed h lvl rest else a # rest)"

text \<open>\<^verbatim>\<open>if (!parent.children) parent.children = []; parent.children.push(node)\<close>\<close>

definition push_child :: "HeapNode list \<Rightarrow> nat \<Rightarrow> nat \<Rightarrow> HeapNode list" where
  "push_child h parent node =
     h[parent := (h ! parent)\<lparr>h_children :=
         Some ((case h_children (h ! parent) of None \<Rightarrow> [] | Some cs \<Rightarrow> cs) @ [node])\<rparr>]"

text \<open>One iteration of the loop; the new object gets the next free reference.\<close>

definition buildTree_step :: "DirectoryEntry \<Rightarrow> build_state \<Rightarrow> build_state" where
  "buildTree_step entry s =
     (let node = length (heap s);
          h1 = heap s @ [new_node entry];
          stack1 = pop_closed h1 (e_level entry) (stack s);
          h2 = (if stack1 = [] then h1 else push_child h1 (hd stack1) node);
          tree2 = (if stack1 = [] then tree s @ [node] else tree s);
          stack2 = (if e_kind entry = Folder then node # stack1 else stack1)
      in \<lparr>heap = h2, tree = tree2, stack = stack2\<rparr>)"

definition buildTree_loop :: "DirectoryEntry list \<Rightarrow> build_state" where
  "buildTree_loop entries = fold buildTree_step entries \<lparr>heap = [], tree = [], stack = []\<rparr>"

text \<open>
  The value the caller reads from \<^verbatim>\<open>tree\<close>: the nodes with the child references followed,
  as \<^verbatim>\<open>renderNodes\<close> follows them. A reference outside the store, or a child reference
  that does not point forward in the store, has no reading as a finite tree (\<open>None\<close>).
\<close>

function reify :: "HeapNode list \<Rightarrow> nat \<Rightarrow> TreeNode option" where
  "reify h a =
     (if length h \<le> a then None
      else
        (case h_children (h ! a) of
           None \<Rightarrow>
             Some (TreeNode (h_name (h ! a)) (h_path (h ! a)) (h_kind (h ! a)) (h_level (h ! a))
                     (h_supported (h ! a)) None)
         | Some cs \<Rightarrow>
             (if \<exists>c \<in> set cs. c \<le> a then None
              else map_option
                     (\<lambda>ts. TreeNode (h_name (h ! a)) (h_path (h ! a)) (h_kind (h ! a)) (h_level (h ! a))
                             (h_supported (h ! a)) (Some ts))
                     (those (map (reify h) cs)))))"
  by pat_completeness auto
termination
  by (relation "measure (\<lambda>(h, a). length h - a)") auto

declare reify.simps [simp del]

definition buildTree :: "DirectoryEntry list \<Rightarrow> TreeNode list option" where
  "buildTree entries =
     (let s = buildTree_loop entries in those (map (reify (heap s)) (tree s)))"

text \<open>An entry of the examples: its path is its name, \<^verbatim>\<open>supported\<close> is absent.\<close>

definition dir_entry :: "node_kind \<Rightarrow> string \<Rightarrow> int \<Rightarrow> DirectoryEntry" where
  "dir_entry k n l = \<lparr>e_kind = k, e_name = n, e_path = n, e_level = l, e_supported = None\<rparr>"

text \<open>The entry a stored node was created from: its fields but \<^verbatim>\<open>children\<close>.\<close>

definition entry_of :: "HeapNode \<Rightarrow> DirectoryEntry" where
  "entry_of n =
     \<lparr>e_kind = h_kind n, e_name = h_name n, e_path = h_path n, e_level = h_level n,
      e_supported = h_supported n\<rparr>"

text \<open>
  What holds of the store after every iteration: the nodes are the entries read so far,
  in order; the stack holds references to folders; a node has a \<^verbatim>\<open>children\<close> array
  exactly when it is a folder; child references point forward.
\<close>

definition build_inv :: "DirectoryEntry list \<Rightarrow> build_state \<Rightarrow> bool" where
  "build_inv es s =
     (map entry_of (heap s) = es
      \<and> (\<forall>a \<in> set (stack s). a < length es \<and> h_kind (heap s ! a) = Folder)
      \<and> (\<forall>a \<in> set (tree s). a < length es)
      \<and> (\<forall>a < length es. (h_kind (heap s ! a) = Folder) = (h_children (heap s ! a) \<noteq> None))
      \<and> (\<forall>a < length es. \<forall>c \<in> set (case h_children (heap s ! a) of None \<Rightarrow> [] | Some cs \<Rightarrow> cs).
            a < c \<and> c < length es))"

text \<open>
  The invariant of \<^verbatim>\<open>TreeNode\<close>, at every depth: a file has no \<^verbatim>\<open>children\<close>, a folder
  has a \<^verbatim>\<open>children\<close> sequence.
\<close>

fun node_ok :: "TreeNode \<Rightarrow> bool" where
  "node_ok (TreeNode n p k l s None) = (k = File)"
| "node_ok (TreeNode n p k l s (Some cs)) = (k = Folder \<and> list_all node_ok cs)"

section \<open>Tree builder from file paths\<close>

text \<open>
  \<^verbatim>\<open>buildTreeFromFilePaths\<close> (editor page 118-146). The intermediate object
  \<^verbatim>\<open>root: Record<string, any>\<close> is a trie: every node but the root has \<^verbatim>\<open>name\<close>,
  \<^verbatim>\<open>path\<close>, \<^verbatim>\<open>type\<close> and a \<^verbatim>\<open>children\<close> object keyed by segment. The own properties
  of a \<^verbatim>\<open>children\<close> object are a finite map from segments to nodes.
\<close>

datatype trie =
  Trie (t_name: string) (t_path: string) (t_kind: node_kind) (t_children: "(string, trie) fmap")

text \<open>
  \<^verbatim>\<open>full.split("/").filter(Boolean)\<close>: the segments between the separators, the empty
  ones dropped.
\<close>

fun split_on :: "char \<Rightarrow> string \<Rightarrow> string \<Rightarrow> string list" where
  "split_on sep cur [] = [cur]"
| "split_on sep cur (c # cs) =
     (if c = sep then cur # split_on sep [] cs else split_on sep (cur @ [c]) cs)"

definition path_parts :: "string \<Rightarrow> string list" where
  "path_parts full = filter (\<lambda>segment. segment \<noteq> []) (split_on CHR ''/'' [] full)"

text \<open>
  The \<^verbatim>\<open>children\<close> objects and the root are plain objects, so a property that is not
  their own is looked up in \<^verbatim>\<open>Object.prototype\<close>. The names found there are
  \<^verbatim>\<open>__proto__\<close>, whose value is \<^verbatim>\<open>Object.prototype\<close> itself, and the names of its
  functions. The loop can write to these objects: \<^verbatim>\<open>cursor.children ||= {}\<close> with
  \<^verbatim>\<open>cursor\<close> at \<^verbatim>\<open>Object.prototype\<close> gives it a property \<^verbatim>\<open>children\<close>, which from
  then on every object without a \<^verbatim>\<open>children\<close> of its own inherits, and with \<^verbatim>\<open>cursor\<close>
  at one of the functions gives that function a \<^verbatim>\<open>children\<close> of its own. These objects
  outlive a call of the builder. The environment records what the builder can write
  there: the \<^verbatim>\<open>children\<close> object of \<^verbatim>\<open>Object.prototype\<close>, if it has one, and the
  \<^verbatim>\<open>children\<close> object of each function that has one, under the name of the function.
  In a page where the builder has not walked such names both are absent.
\<close>

definition Object_prototype_functions :: "string list" where
  "Object_prototype_functions =
     [''constructor'', ''hasOwnProperty'', ''isPrototypeOf'', ''propertyIsEnumerable'',
      ''toLocaleString'', ''toString'', ''valueOf'', ''__defineGetter__'', ''__defineSetter__'',
      ''__lookupGetter__'', ''__lookupSetter__'']"

record js_env =
  proto_children :: "(string, trie) fmap option"
  fn_children :: "(string, (string, trie) fmap) fmap"

definition fresh_env :: js_env where
  "fresh_env = \<lparr>proto_children = None, fn_children = fmempty\<rparr>"

text \<open>
  The objects outside the trie that \<^verbatim>\<open>cursor\<close> can reach: \<^verbatim>\<open>Object.prototype\<close>, one of
  its functions, and the \<^verbatim>\<open>children\<close> object of \<^verbatim>\<open>Object.prototype\<close>. \<open>inherited\<close> is the
  value of \<^verbatim>\<open>cursor.children[segment]\<close> when \<^verbatim>\<open>segment\<close> is not an own property of the
  \<^verbatim>\<open>children\<close> object: one of these objects, or \<^verbatim>\<open>undefined\<close>.
\<close>

datatype builtin = Object_prototype | Prototype_function string | Shared_children

definition inherited :: "js_env \<Rightarrow> string \<Rightarrow> builtin option" where
  "inherited env segment =
     (if segment = ''__proto__'' then Some Object_prototype
      else if segment \<in> set Object_prototype_functions then Some (Prototype_function segment)
      else if segment = ''children'' \<and> proto_children env \<noteq> None then Some Shared_children
      else None)"

text \<open>
  The \<^verbatim>\<open>parts.forEach\<close> loop, from a \<^verbatim>\<open>children\<close> object downwards. It walks \<^verbatim>\<open>cursor\<close>
  down the trie and mutates it in place: \<^verbatim>\<open>agg += "/" + segment\<close>, then
  \<^verbatim>\<open>cursor.children[segment] ||= {...}\<close> keeps the value it finds, own or inherited, and
  otherwise creates a node, a file when the segment is the last
  (\<^verbatim>\<open>idx === parts.length - 1\<close>) and a folder otherwise; a node has a \<^verbatim>\<open>children\<close> object
  of its own from its creation. The walk returns the \<^verbatim>\<open>children\<close> object as the loop
  leaves it and how it ends: with the last segment, or with an inherited value that takes
  \<^verbatim>\<open>cursor\<close> out of the trie, the segments still to come and \<^verbatim>\<open>agg\<close>.
\<close>

datatype walk_end = Done | Leave builtin "string list" string

fun walk_map ::
  "js_env \<Rightarrow> string list \<Rightarrow> string \<Rightarrow> (string, trie) fmap \<Rightarrow> (string, trie) fmap \<times> walk_end" where
  "walk_map env [] agg children = (children, Done)"
| "walk_map env (segment # rest) agg children =
     (let agg' = agg @ ''/'' @ segment in
      case fmlookup children segment of
        Some child \<Rightarrow>
          let (sub, e) = walk_map env rest agg' (t_children child)
          in (fmupd segment (Trie (t_name child) (t_path child) (t_kind child) sub) children, e)
      | None \<Rightarrow>
          (case inherited env segment of
             Some obj \<Rightarrow> (children, Leave obj rest agg')
           | None \<Rightarrow>
               let (sub, e) = walk_map env rest agg' fmempty
               in (fmupd segment (Trie segment agg' (if rest = [] then File else Folder) sub)
                     children, e)))"

text \<open>
  The loop with \<^verbatim>\<open>cursor\<close> at an object outside the trie. \<^verbatim>\<open>cursor.children ||= {}\<close>
  finds the \<^verbatim>\<open>children\<close> object to walk: for \<^verbatim>\<open>Object.prototype\<close> its own, created if
  absent; for a function its own if it has one, else the one inherited from
  \<^verbatim>\<open>Object.prototype\<close> if there is one, else a new one of its own; for the \<^verbatim>\<open>children\<close>
  object of \<^verbatim>\<open>Object.prototype\<close>, which has no \<^verbatim>\<open>children\<close> of its own, the inherited
  one, that is, itself. A slot is the place of a \<^verbatim>\<open>children\<close> object in the environment.
\<close>

datatype slot = Proto_slot | Function_slot string

definition children_of :: "builtin \<Rightarrow> js_env \<Rightarrow> slot \<times> js_env" where
  "children_of obj env =
     (case obj of
        Object_prototype \<Rightarrow>
          (Proto_slot,
           if proto_children env = None then env\<lparr>proto_children := Some fmempty\<rparr> else env)
      | Shared_children \<Rightarrow>
          (Proto_slot,
           if proto_children env = None then env\<lparr>proto_children := Some fmempty\<rparr> else env)
      | Prototype_function f \<Rightarrow>
          (case fmlookup (fn_children env) f of
             Some own \<Rightarrow> (Function_slot f, env)
           | None \<Rightarrow>
               if proto_children env \<noteq> None then (Proto_slot, env)
               else (Function_slot f, env\<lparr>fn_children := fmupd f fmempty (fn_children env)\<rparr>)))"

definition slot_map :: "slot \<Rightarrow> js_env \<Rightarrow> (string, trie) fmap" where
  "slot_map sl env =
     (case sl of
        Proto_slot \<Rightarrow> (case proto_children env of Some m \<Rightarrow> m | None \<Rightarrow> fmempty)
      | Function_slot f \<Rightarrow> (case fmlookup (fn_children env) f of Some m \<Rightarrow> m | None \<Rightarrow> fmempty))"

definition set_slot :: "slot \<Rightarrow> (string, trie) fmap \<Rightarrow> js_env \<Rightarrow> js_env" where
  "set_slot sl m env =
     (case sl of
        Proto_slot \<Rightarrow> env\<lparr>proto_children := Some m\<rparr>
      | Function_slot f \<Rightarrow> env\<lparr>fn_children := fmupd f m (fn_children env)\<rparr>)"

function env_walk :: "builtin \<Rightarrow> string list \<Rightarrow> string \<Rightarrow> js_env \<Rightarrow> js_env" where
  "env_walk obj [] agg env = env"
| "env_walk obj (segment # rest) agg env =
     (let (sl, env1) = children_of obj env;
          (m, e) = walk_map env1 (segment # rest) agg (slot_map sl env1);
          env2 = set_slot sl m env1
      in case e of
           Done \<Rightarrow> env2
         | Leave obj' rest' agg' \<Rightarrow> env_walk obj' rest' agg' env2)"
  by pat_completeness auto
termination
proof -
  have shorter: "length rest' < length segs"
    if "walk_map env segs agg children = (children', Leave obj rest' agg')"
    for env segs agg children children' obj rest' agg'
    using that
  proof (induction segs arbitrary: agg children children')
    case Nil
    then show ?case by simp
  next
    case (Cons s segs)
    then show ?case
      by (fastforce simp: Let_def split: option.splits prod.splits)
  qed
  show ?thesis
    by (relation "measure (\<lambda>(obj, segs, agg, env). length segs)")
       (auto simp del: walk_map.simps dest: shorter [OF sym])
qed

text \<open>
  One path of the \<^verbatim>\<open>for\<close> loop, from \<^verbatim>\<open>cursor = root\<close>. The root is created without
  properties; \<^verbatim>\<open>root.children\<close> is its own \<^verbatim>\<open>children\<close> object once the loop has created
  it, and before that the one inherited from \<^verbatim>\<open>Object.prototype\<close>, if there is one, in
  which case the root gets none of its own. A path without segments leaves everything as
  it is.
\<close>

fun insert_path ::
  "string \<Rightarrow> (string, trie) fmap option \<times> js_env \<Rightarrow> (string, trie) fmap option \<times> js_env" where
  "insert_path full (root_own, env) =
     (case path_parts full of
        [] \<Rightarrow> (root_own, env)
      | segment # rest \<Rightarrow>
          if root_own = None \<and> proto_children env \<noteq> None
          then (None, env_walk Shared_children (segment # rest) [] env)
          else
            let (m, e) = walk_map env (segment # rest) []
                           (case root_own of Some own \<Rightarrow> own | None \<Rightarrow> fmempty)
            in (Some m,
                case e of
                  Done \<Rightarrow> env
                | Leave obj rest' agg' \<Rightarrow> env_walk obj rest' agg' env))"

text \<open>
  \<^verbatim>\<open>toNodes\<close>: the children in the order of \<^verbatim>\<open>Object.keys(...).sort()\<close>, each with
  \<^verbatim>\<open>children: undefined\<close> unless it is a folder. \<open>toNode\<close> is the body of the loop for one
  child; its recursion goes through the map of children (lemma \<open>toNode_Trie\<close> gives the
  equation in terms of \<open>toNodes\<close>). The order on strings is lexicographic by character
  code.
\<close>

primrec toNode :: "trie \<Rightarrow> int \<Rightarrow> TreeNode" where
  "toNode (Trie n p k ch) level =
     TreeNode n p k level None
       (if k = Folder
        then Some (map (\<lambda>key. the (fmlookup (fmmap toNode ch) key) (level + 1))
                     (sorted_list_of_fset (fmdom ch)))
        else None)"

definition toNodes :: "(string, trie) fmap \<Rightarrow> int \<Rightarrow> TreeNode list" where
  "toNodes children level =
     map (\<lambda>key. toNode (the (fmlookup children key)) level) (sorted_list_of_fset (fmdom children))"

text \<open>
  The builder: the loop over the paths from a new root, then \<^verbatim>\<open>toNodes(root, 0)\<close>, where
  \<^verbatim>\<open>node.children || {}\<close> is the root's own \<^verbatim>\<open>children\<close> object, else the inherited one,
  else empty. The result is the forest, with the environment as the call leaves it.
\<close>

definition buildTreeFromFilePaths :: "js_env \<Rightarrow> string list \<Rightarrow> TreeNode list \<times> js_env" where
  "buildTreeFromFilePaths env paths =
     (let (root_own, env') = fold insert_path paths (None, env)
      in (toNodes
            (case root_own of
               Some own \<Rightarrow> own
             | None \<Rightarrow> (case proto_children env' of Some shared \<Rightarrow> shared | None \<Rightarrow> fmempty))
            0,
          env'))"






section \<open>Ingestion controller\<close>

text \<open>
  The handlers that request an analysis. Each is an \<^verbatim>\<open>async\<close> function that awaits one
  \<^verbatim>\<open>fetch\<close>; the model gives the outcome of the request as an argument and returns the
  state the handler leaves when it completes. A response carries its status code, its
  body as text and the body as \<^verbatim>\<open>response.json()\<close> reads it: the parsed payload, or the
  message of the exception when the body is not JSON. \<^verbatim>\<open>response.ok\<close> holds for the
  status codes 200 to 299. \<open>Rejected\<close> is a request that fails before any response
  (\<^verbatim>\<open>fetch\<close> throws).
\<close>

datatype fetch_result =
    Rejected string
  | Response (resp_status: nat) (resp_text: string) (resp_json: "string + AnalysisResult")

definition resp_ok :: "nat \<Rightarrow> bool" where
  "resp_ok code = (200 \<le> code \<and> code \<le> 299)"

text \<open>
  The outcome of the request to \<^verbatim>\<open>/api/directory-structure\<close>: the payload is absent
  when the body is not JSON, and its \<^verbatim>\<open>entries\<close> field may be absent.
\<close>

datatype dir_result =
    DirRejected
  | DirResponse (dir_status: nat) (dir_payload: "DirectoryEntry list option option")

text \<open>
  The state of the three pages, as far as the handlers below write it: the result, the
  progress value as the handler itself writes it (\<^verbatim>\<open>startProgress\<close> sets it to 1,
  \<^verbatim>\<open>stopProgress\<close> and \<^verbatim>\<open>finishProgress\<close> to 100; the timers that move it in between
  and reset it later have their own model, in the section on the progress indicator),
  the notice and the loading flags. The text of a notice is the sequence of the parts of
  its template literal. The directory path typed on the analyzer page is held as the
  sequence of its UTF-16 code units, which \<^verbatim>\<open>trim\<close> reads. The state of the editor page
  includes the environment that the path-based tree builder reads and writes.
\<close>

datatype feedback_type = Success | Error | Info

datatype text_part = Str string | Num nat

record page_state =
  analysisResult :: "AnalysisResult option"
  progressPct :: nat

record home_state = page_state +
  feedback :: "(feedback_type \<times> text_part list) option"
  analysisLoading :: bool
  uploadLoading :: bool
  editorOpen :: bool
  zipFile :: "string option"
  storedSelection :: string

record analyzer_state = page_state +
  a_directoryPath :: "nat list"
  a_zipFile :: "string option"
  a_treeEntries :: "DirectoryEntry list"
  a_loading :: bool

record editor_state = page_state +
  ed_tree :: "TreeNode list"
  ed_loading :: bool
  ed_objects :: js_env

text \<open>
  page.tsx. \<open>run_request\<close> is the \<^verbatim>\<open>try\<close>/\<^verbatim>\<open>catch\<close> block that \<^verbatim>\<open>requestAnalysis\<close>
  (424-456), \<^verbatim>\<open>handleUploadAnalyze\<close> (472-505) and \<^verbatim>\<open>handleAnalyzeStored\<close> (577-604)
  share up to the texts of their notices: a response that is not ok is reported and the
  handler returns; an exception is reported by \<^verbatim>\<open>catch\<close>; otherwise the payload becomes
  the result. The \<^verbatim>\<open>finally\<close> block follows in each handler.
\<close>

definition notify :: "feedback_type \<Rightarrow> text_part list \<Rightarrow> home_state \<Rightarrow> home_state" where
  "notify ty text s = s\<lparr>feedback := Some (ty, text)\<rparr>"

definition run_request ::
  "text_part list \<Rightarrow> text_part list \<Rightarrow> fetch_result \<Rightarrow> home_state \<Rightarrow> home_state" where
  "run_request failed done r s =
     (case r of
        Rejected msg \<Rightarrow> notify Error [Str msg] s
      | Response code text json \<Rightarrow>
          if \<not> resp_ok code
          then notify Error (failed @ [Num code, Str ''): '', Str text]) s
          else (case json of
                  Inl msg \<Rightarrow> notify Error [Str msg] s
                | Inr data \<Rightarrow> notify Success done (s\<lparr>analysisResult := Some data\<rparr>)))"

definition requestAnalysis :: "fetch_result \<Rightarrow> home_state \<Rightarrow> home_state" where
  "requestAnalysis r s =
     (let s1 = s\<lparr>feedback := None, analysisLoading := True, editorOpen := True, progressPct := 1\<rparr>;
          s2 = run_request [Str ''Analysis failed (''] [Str ''Analysis complete.''] r s1
      in s2\<lparr>analysisLoading := False, progressPct := 100\<rparr>)"

definition handleUploadAnalyze :: "fetch_result \<Rightarrow> home_state \<Rightarrow> home_state" where
  "handleUploadAnalyze r s =
     (let s0 = s\<lparr>feedback := None\<rparr> in
      if zipFile s0 = None then notify Error [Str ''Please choose a ZIP file first.''] s0
      else
        let s1 = s0\<lparr>editorOpen := True, uploadLoading := True, progressPct := 1\<rparr>;
            s2 = run_request [Str ''Upload analysis failed ('']
                   [Str ''ZIP uploaded and analyzed successfully.''] r s1
        in s2\<lparr>uploadLoading := False, progressPct := 100\<rparr>)"

definition handleAnalyzeStored :: "fetch_result \<Rightarrow> home_state \<Rightarrow> home_state" where
  "handleAnalyzeStored r s =
     (let s0 = s\<lparr>feedback := None\<rparr> in
      if storedSelection s0 = [] then notify Error [Str ''Please choose a stored project first.''] s0
      else
        let s1 = s0\<lparr>analysisLoading := True, editorOpen := True, progressPct := 1\<rparr>;
            s2 = run_request [Str ''Failed to analyze stored project ('']
                   [Str ''Stored project analyzed successfully.''] r s1
        in s2\<lparr>analysisLoading := False, progressPct := 100\<rparr>)"

text \<open>
  Analyzer page. \<^verbatim>\<open>onAnalyzeLocal\<close> (98-106) and \<^verbatim>\<open>onAnalyzeZip\<close> (119-124) have
  \<^verbatim>\<open>try\<close>/\<^verbatim>\<open>finally\<close> without \<^verbatim>\<open>catch\<close>: the second component of the result is the
  message of the exception that leaves the handler, if any. \<^verbatim>\<open>trim\<close> removes from both
  ends the code units that are white space or line terminators of the language: tab,
  line feed, vertical tab, form feed, carriage return, space, no-break space (U+00A0),
  U+1680, U+2000 to U+200A, the line and paragraph separators U+2028 and U+2029, U+202F,
  U+205F, U+3000 and the byte order mark U+FEFF.
\<close>

definition is_space :: "nat \<Rightarrow> bool" where
  "is_space c =
     (c \<in> {0x09, 0x0A, 0x0B, 0x0C, 0x0D, 0x20, 0xA0, 0x1680, 0x2028, 0x2029, 0x202F, 0x205F,
           0x3000, 0xFEFF}
      \<or> (0x2000 \<le> c \<and> c \<le> 0x200A))"

definition trim :: "nat list \<Rightarrow> nat list" where
  "trim s = rev (dropWhile is_space (rev (dropWhile is_space s)))"

definition fetchDirectoryTree :: "dir_result \<Rightarrow> analyzer_state \<Rightarrow> analyzer_state" where
  "fetchDirectoryTree d s =
     (case d of
        DirRejected \<Rightarrow> s
      | DirResponse code payload \<Rightarrow>
          if \<not> resp_ok code then s
          else (case payload of
                  None \<Rightarrow> s
                | Some entries \<Rightarrow>
                    s\<lparr>a_treeEntries := (case entries of None \<Rightarrow> [] | Some es \<Rightarrow> es)\<rparr>))"

definition onAnalyzeLocal ::
  "fetch_result \<Rightarrow> dir_result \<Rightarrow> analyzer_state \<Rightarrow> analyzer_state \<times> string option" where
  "onAnalyzeLocal r d s =
     (if trim (a_directoryPath s) = [] then (s, None)
      else
        let s1 = s\<lparr>a_loading := True, progressPct := 1\<rparr>;
            (s2, thrown) =
              (case r of
                 Rejected msg \<Rightarrow> (s1, Some msg)
               | Response code text json \<Rightarrow>
                   (case json of
                      Inl msg \<Rightarrow> (s1, Some msg)
                    | Inr data \<Rightarrow> (fetchDirectoryTree d (s1\<lparr>analysisResult := Some data\<rparr>), None)))
        in (s2\<lparr>a_loading := False, progressPct := 100\<rparr>, thrown))"

definition onAnalyzeZip :: "fetch_result \<Rightarrow> analyzer_state \<Rightarrow> analyzer_state \<times> string option" where
  "onAnalyzeZip r s =
     (if a_zipFile s = None then (s, None)
      else
        let s1 = s\<lparr>a_loading := True, progressPct := 1\<rparr>;
            (s2, thrown) =
              (case r of
                 Rejected msg \<Rightarrow> (s1, Some msg)
               | Response code text json \<Rightarrow>
                   (case json of
                      Inl msg \<Rightarrow> (s1, Some msg)
                    | Inr data \<Rightarrow> (s1\<lparr>analysisResult := Some data\<rparr>, None)))
        in (s2\<lparr>a_loading := False, progressPct := 100\<rparr>, thrown))"

text \<open>
  Editor page: \<^verbatim>\<open>fetchDirectoryTree\<close> (225-238) and the effect that runs the analysis
  (242-277), whose \<^verbatim>\<open>catch\<close> block is empty. A query parameter is used when it is
  present and not empty. In the Git branch \<^verbatim>\<open>full.split\<close> throws on a file without
  \<^verbatim>\<open>file_path\<close>, after the result has been stored and the loop of the builder has
  walked the paths before that file; the tree is then not set.
\<close>

definition ed_fetchDirectoryTree :: "dir_result \<Rightarrow> editor_state \<Rightarrow> editor_state" where
  "ed_fetchDirectoryTree d s =
     (case d of
        DirRejected \<Rightarrow> s
      | DirResponse code payload \<Rightarrow>
          if \<not> resp_ok code then s
          else (case payload of
                  None \<Rightarrow> s
                | Some entries \<Rightarrow>
                    (case buildTree (case entries of None \<Rightarrow> [] | Some es \<Rightarrow> es) of
                       Some forest \<Rightarrow> s\<lparr>ed_tree := forest\<rparr>
                     | None \<Rightarrow> s)))"

definition truthy :: "string option \<Rightarrow> bool" where
  "truthy p = (p \<noteq> None \<and> p \<noteq> Some [])"

definition editor_effect ::
  "string option \<Rightarrow> string option \<Rightarrow> fetch_result \<Rightarrow> dir_result \<Rightarrow> editor_state \<Rightarrow> editor_state" where
  "editor_effect gitParam pathParam r d s =
     (let s1 = s\<lparr>progressPct := 1\<rparr>;
          s2 =
            (if truthy gitParam then
               (case r of
                  Rejected msg \<Rightarrow> s1
                | Response code text json \<Rightarrow>
                    (case json of
                       Inl msg \<Rightarrow> s1
                     | Inr data \<Rightarrow>
                         let s' = s1\<lparr>analysisResult := Some data\<rparr>;
                             paths = map (\<lambda>f. obj_file_path (analysis f)) (getFilesCollection (Some data))
                         in if None \<in> set paths
                            then s'\<lparr>ed_objects :=
                                     snd (fold insert_path
                                            (map the (takeWhile (\<lambda>p. p \<noteq> None) paths))
                                            (None, ed_objects s'))\<rparr>
                            else
                              let (forest, env') =
                                    buildTreeFromFilePaths (ed_objects s') (map the paths)
                              in s'\<lparr>ed_tree := forest, ed_objects := env'\<rparr>))
             else if truthy pathParam then
               (case r of
                  Rejected msg \<Rightarrow> s1
                | Response code text json \<Rightarrow>
                    (case json of
                       Inl msg \<Rightarrow> s1
                     | Inr data \<Rightarrow> ed_fetchDirectoryTree d (s1\<lparr>analysisResult := Some data\<rparr>)))
             else s1)
      in s2\<lparr>ed_loading := False, progressPct := 100\<rparr>)"

text \<open>
  A failed request: rejected before any response, or answered with a status that is not
  a success.
\<close>

definition request_failed :: "fetch_result \<Rightarrow> bool" where
  "request_failed r = (case r of Rejected msg \<Rightarrow> True | Response code text json \<Rightarrow> \<not> resp_ok code)"

text \<open>
  States and payloads of the examples: a result held before the action, and the payload
  \<^verbatim>\<open>{}\<close> of an error response. The directory path of the analyzer page is
  \<^verbatim>\<open>/srv/project\<close>.
\<close>

definition prior_result :: AnalysisResult where
  "prior_result = (result_with None None)\<lparr>status := Some ''success'', total_files := Some 3\<rparr>"

definition error_payload :: AnalysisResult where
  "error_payload = result_with None None"

definition analyzer_before :: analyzer_state where
  "analyzer_before =
     \<lparr>analysisResult = Some prior_result, progressPct = 0, a_directoryPath = map of_char ''/srv/project'',
      a_zipFile = None, a_treeEntries = [], a_loading = False\<rparr>"

definition editor_before :: editor_state where
  "editor_before =
     \<lparr>analysisResult = Some prior_result, progressPct = 1, ed_tree = [], ed_loading = True,
      ed_objects = fresh_env\<rparr>"

definition home_before :: home_state where
  "home_before =
     \<lparr>analysisResult = Some prior_result, progressPct = 0, feedback = None,
      analysisLoading = False, uploadLoading = False, editorOpen = False,
      zipFile = Some ''project.zip'', storedSelection = ''demo''\<rparr>"


section \<open>Progress indicator\<close>

text \<open>
  \<^verbatim>\<open>startProgress\<close> and \<^verbatim>\<open>stopProgress\<close> (page.tsx 664-679, analyzer page 78-83;
  \<^verbatim>\<open>startProgress\<close> and \<^verbatim>\<open>finishProgress\<close> on the editor page, 208-223) and the two
  callbacks they install. The state is the progress value, a real number since the
  increments are not whole, whether the interval that
  \<^verbatim>\<open>startProgress\<close> sets is running, and the number of timeouts that \<^verbatim>\<open>stopProgress\<close> has
  scheduled and that have not fired yet; \<open>outstanding\<close> records that an action has called
  \<^verbatim>\<open>startProgress\<close> and not yet \<^verbatim>\<open>stopProgress\<close>, that is, that its request is outstanding.
  The pages differ in the ceiling of the interval callback (90, 92 and 98) and in the
  delays of the timers, which the model leaves out: a timer fires at some later moment.
\<close>

record progress =
  pct :: real
  ticking :: bool
  resets :: nat
  outstanding :: bool

definition idle :: progress where
  "idle = \<lparr>pct = 0, ticking = False, resets = 0, outstanding = False\<rparr>"

text \<open>
  \<^verbatim>\<open>startProgress\<close> sets the value to 1 and replaces the interval, if there is one, by a
  new one. It does nothing about a timeout scheduled earlier.
\<close>

definition startProgress :: "progress \<Rightarrow> progress" where
  "startProgress s = s\<lparr>pct := 1, ticking := True, outstanding := True\<rparr>"

text \<open>
  The callback of the interval, \<^verbatim>\<open>prev => Math.min(prev + (Math.random() * 6 + 1), cap)\<close>,
  with \<open>r\<close> the value of \<^verbatim>\<open>Math.random()\<close>. It runs only while the interval is set.
\<close>

definition interval_tick :: "real \<Rightarrow> real \<Rightarrow> progress \<Rightarrow> progress" where
  "interval_tick cap r s = (if ticking s then s\<lparr>pct := min (pct s + (r * 6 + 1)) cap\<rparr> else s)"

text \<open>
  \<^verbatim>\<open>stopProgress\<close> clears the interval, sets the value to 100 and schedules a timeout
  that sets it to 0.
\<close>

definition stopProgress :: "progress \<Rightarrow> progress" where
  "stopProgress s = s\<lparr>pct := 100, ticking := False, resets := resets s + 1, outstanding := False\<rparr>"

text \<open>The callback of the timeout, \<^verbatim>\<open>() => setProgressPct(0)\<close>, when one is scheduled.\<close>

definition timeout_fires :: "progress \<Rightarrow> progress" where
  "timeout_fires s = (if 0 < resets s then s\<lparr>pct := 0, resets := resets s - 1\<rparr> else s)"

text \<open>
  What happens on a page, in order: an action starts, the interval fires, the request of
  the action resolves (the \<^verbatim>\<open>finally\<close> block calls \<^verbatim>\<open>stopProgress\<close>), a timeout fires.
\<close>

datatype event = Start | Tick real | Resolve | Timeout

definition step :: "real \<Rightarrow> event \<Rightarrow> progress \<Rightarrow> progress" where
  "step cap ev s =
     (case ev of
        Start \<Rightarrow> startProgress s
      | Tick r \<Rightarrow> interval_tick cap r s
      | Resolve \<Rightarrow> stopProgress s
      | Timeout \<Rightarrow> timeout_fires s)"

definition run :: "real \<Rightarrow> event list \<Rightarrow> progress \<Rightarrow> progress" where
  "run cap evs s = fold (step cap) evs s"

section \<open>Findings aggregation\<close>

lemma fold_Set_add: "fold Set_add arr acc = acc @ first_seen (filter (\<lambda>x. x \<notin> set acc) arr)"
proof (induction arr arbitrary: acc)
  case Nil
  show ?case by simp
next
  case (Cons x xs)
  show ?case
  proof (cases "x \<in> set acc")
    case True
    then have "Set_add x acc = acc" by (simp add: Set_add_def)
    with True show ?thesis by (simp add: Cons.IH)
  next
    case False
    then have add: "Set_add x acc = acc @ [x]" by (simp add: Set_add_def)
    have "filter (\<lambda>y. y \<notin> set (acc @ [x])) xs = filter (\<lambda>y. y \<noteq> x) (filter (\<lambda>y. y \<notin> set acc) xs)"
      by (induction xs) auto
    with False add show ?thesis by (simp add: Cons.IH)
  qed
qed

lemma Boolean_string_eq: "Boolean_string = (\<lambda>s. s \<noteq> [])"
  by (rule ext) (simp add: Boolean_string_def)

lemma Array_from_Set_first_seen: "Array_from_Set arr = first_seen arr"
  by (simp add: Array_from_Set_def fold_Set_add)

lemma fold_push_summary:
  "fold push_summary rvs (v, r) =
     (v @ concat (map summary_vulnerabilities rvs), r @ concat (map summary_recommendations rvs))"
proof (induction rvs arbitrary: v r)
  case Nil
  show ?case by simp
next
  case (Cons rv rvs)
  have "push_summary rv (v, r) = (v @ summary_vulnerabilities rv, r @ summary_recommendations rv)"
    by (cases "crypto_summary rv")
       (auto simp: push_summary_def summary_vulnerabilities_def summary_recommendations_def
             split: option.splits elim: has_length.elims)
  then show ?case by (simp add: Cons.IH)
qed

lemma set_first_seen: "set (first_seen xs) = set xs"
  by (induction xs rule: first_seen.induct) auto

lemma distinct_first_seen: "distinct (first_seen xs)"
  by (induction xs rule: first_seen.induct) (auto simp: set_first_seen)

text \<open>
  Claim C5. For every analysis result (or none), the aggregated vulnerabilities are the
  vulnerability arrays of all reviews' summaries concatenated, deduplicated keeping the
  first occurrence, without the empty strings; likewise the recommendations. The list
  has no duplicate and holds exactly the non-empty strings of the concatenation. Two
  reviews with vulnerabilities "SQL injection", "Weak hash" and "Weak hash" aggregate
  to "SQL injection", "Weak hash".
\<close>

theorem findings_first_seen:
  "fst (findings held) =
     filter (\<lambda>s. s \<noteq> []) (first_seen (concat (map summary_vulnerabilities (reviews_of held))))
   \<and> snd (findings held) =
     filter (\<lambda>s. s \<noteq> []) (first_seen (concat (map summary_recommendations (reviews_of held))))
   \<and> distinct (fst (findings held))
   \<and> set (fst (findings held)) =
       set (concat (map summary_vulnerabilities (reviews_of held))) - {[]}
   \<and> fst (findings (Some (result_with None (Some
         [review_with (Some [''SQL injection'', ''Weak hash'']) None,
          review_with (Some [''Weak hash'']) None]))))
       = [''SQL injection'', ''Weak hash'']"
proof -
  have raw: "(case held of
           None \<Rightarrow> ([], [])
         | Some res \<Rightarrow>
             if has_length (detailed_reviews res)
             then fold push_summary (the (detailed_reviews res)) ([], [])
             else ([], []))
      = (concat (map summary_vulnerabilities (reviews_of held)),
         concat (map summary_recommendations (reviews_of held)))"
    by (auto simp: reviews_of_def fold_push_summary split: option.splits elim: has_length.elims)
  have v: "fst (findings held) =
     filter (\<lambda>s. s \<noteq> []) (first_seen (concat (map summary_vulnerabilities (reviews_of held))))"
    unfolding findings_def raw
    by (simp add: uniq_def Array_from_Set_first_seen Boolean_string_eq)
  have r: "snd (findings held) =
     filter (\<lambda>s. s \<noteq> []) (first_seen (concat (map summary_recommendations (reviews_of held))))"
    unfolding findings_def raw
    by (simp add: uniq_def Array_from_Set_first_seen Boolean_string_eq)
  have d: "distinct (fst (findings held))"
    unfolding v by (simp add: distinct_first_seen)
  have s: "set (fst (findings held)) =
       set (concat (map summary_vulnerabilities (reviews_of held))) - {[]}"
    unfolding v by (auto simp: set_first_seen)
  have ex: "fst (findings (Some (result_with None (Some
         [review_with (Some [''SQL injection'', ''Weak hash'']) None,
          review_with (Some [''Weak hash'']) None]))))
       = [''SQL injection'', ''Weak hash'']"
    by (simp add: findings_def result_with_def review_with_def push_summary_def uniq_def
          Array_from_Set_def Set_add_def Boolean_string_def)
  from v r d s ex show ?thesis by blast
qed

section \<open>Files collection: which array it is built from\<close>

lemma filter_Boolean_obj: "filter (\<lambda>entry. Boolean_obj (analysis entry)) es = es"
proof -
  have "Boolean_obj a" for a by (cases a) simp_all
  then show ?thesis by simp
qed

text \<open>
  Claim C10. With no result the collection is empty. With a non-empty
  \<^verbatim>\<open>detailed_reviews\<close> the collection has one entry per review, in order, whose analysis
  is the review's \<^verbatim>\<open>original_analysis\<close> or, when that is absent, the review object
  itself; the rest of the result, \<^verbatim>\<open>basic_analysis\<close> included, plays no part. With
  \<^verbatim>\<open>detailed_reviews\<close> absent or empty and a non-empty \<^verbatim>\<open>basic_analysis\<close> the
  collection has one entry per analysis record, without a review. With both arrays absent
  or empty the collection is empty.
\<close>

theorem getFilesCollection_sources:
  "getFilesCollection None = []
   \<and> getFilesCollection (Some (res\<lparr>detailed_reviews := Some (rv # rvs)\<rparr>)) =
       map (\<lambda>rv. \<lparr>analysis = (case original_analysis rv of Some a \<Rightarrow> Analysis a | None \<Rightarrow> ReviewObject rv),
                  review = Some rv\<rparr>) (rv # rvs)
   \<and> getFilesCollection (Some (res\<lparr>detailed_reviews := None, basic_analysis := Some (b # bs)\<rparr>)) =
       map (\<lambda>a. \<lparr>analysis = Analysis a, review = None\<rparr>) (b # bs)
   \<and> getFilesCollection (Some (res\<lparr>detailed_reviews := Some [], basic_analysis := Some (b # bs)\<rparr>)) =
       map (\<lambda>a. \<lparr>analysis = Analysis a, review = None\<rparr>) (b # bs)
   \<and> getFilesCollection (Some (res\<lparr>detailed_reviews := None, basic_analysis := None\<rparr>)) = []
   \<and> getFilesCollection (Some (res\<lparr>detailed_reviews := None, basic_analysis := Some []\<rparr>)) = []
   \<and> getFilesCollection (Some (res\<lparr>detailed_reviews := Some [], basic_analysis := None\<rparr>)) = []
   \<and> getFilesCollection (Some (res\<lparr>detailed_reviews := Some [], basic_analysis := Some []\<rparr>)) = []"
proof -
  have rev_eq: "review_entry = (\<lambda>rv. \<lparr>analysis = (case original_analysis rv of Some a \<Rightarrow> Analysis a | None \<Rightarrow> ReviewObject rv),
                  review = Some rv\<rparr>)"
    by (rule ext) (simp add: review_entry_def)
  have an_eq: "analysis_entry = (\<lambda>a. \<lparr>analysis = Analysis a, review = None\<rparr>)"
    by (rule ext) (simp add: analysis_entry_def)
  show ?thesis
    unfolding getFilesCollection_def filter_Boolean_obj rev_eq an_eq by simp
qed

section \<open>Per-file and per-folder counts\<close>









lemma startsWith_prefix: "startsWith s p = prefix p s"
proof
  assume "startsWith s p"
  then have "s = p @ drop (length p) s"
    by (metis append_take_drop_id startsWith_def)
  then show "prefix p s" by (metis prefixI)
next
  assume "prefix p s"
  then show "startsWith s p" by (auto simp: startsWith_def prefix_def)
qed

lemma endsWith_slash: "endsWith s ''/'' = (s \<noteq> [] \<and> last s = CHR ''/'')"
proof (cases "s = []")
  case True
  then show ?thesis by (simp add: endsWith_def)
next
  case False
  then have "s = butlast s @ [last s]" by simp
  then have "drop (length s - 1) s = [last s]"
    by (metis append_eq_conv_conj length_butlast)
  with False show ?thesis by (simp add: endsWith_def Suc_leI)
qed

lemma fold_count:
  "fold (\<lambda>(p, v) sum. if P p then sum + v else sum) counts acc =
     acc + sum_list (map snd (filter (\<lambda>(p, v). P p) counts))"
  by (induction counts arbitrary: acc) (auto split: prod.splits simp: add.assoc)

text \<open>
  Claim C4, as amended. The count of the empty folder path is 0. The count of a folder
  path that ends with the separator is the sum of the counts of the files whose path
  starts with the folder path itself. The count of any other folder path is the sum of
  the counts of the files whose path starts with the folder path followed by the
  separator. With the counts /src/a.py: 2, /src/b.py: 3, /lib/c.py: 1 the count of /src
  is 5, of /lib is 1 and of /s is 0.
\<close>

theorem getFolderCount_sum:
  "getFolderCount counts folderPath =
     (if folderPath = [] then 0
      else if last folderPath = CHR ''/''
      then sum_list (map snd (filter (\<lambda>(p, v). prefix folderPath p) counts))
      else sum_list (map snd (filter (\<lambda>(p, v). prefix (folderPath @ ''/'') p) counts)))
   \<and> getFolderCount [(''/src/a.py'', 2), (''/src/b.py'', 3), (''/lib/c.py'', 1)] ''/src'' = 5
   \<and> getFolderCount [(''/src/a.py'', 2), (''/src/b.py'', 3), (''/lib/c.py'', 1)] ''/lib'' = 1
   \<and> getFolderCount [(''/src/a.py'', 2), (''/src/b.py'', 3), (''/lib/c.py'', 1)] ''/s'' = 0"
proof -
  have sw: "startsWith s p = prefix p s" for s p by (rule startsWith_prefix)
  have general: "getFolderCount counts folderPath =
     (if folderPath = [] then 0
      else if last folderPath = CHR ''/''
      then sum_list (map snd (filter (\<lambda>(p, v). prefix folderPath p) counts))
      else sum_list (map snd (filter (\<lambda>(p, v). prefix (folderPath @ ''/'') p) counts)))"
    by (simp add: getFolderCount_def endsWith_slash sw fold_count)
  have "getFolderCount [(''/src/a.py'', 2), (''/src/b.py'', 3), (''/lib/c.py'', 1)] ''/src'' = 5"
    by (simp add: getFolderCount_def endsWith_def startsWith_def)
  moreover have "getFolderCount [(''/src/a.py'', 2), (''/src/b.py'', 3), (''/lib/c.py'', 1)] ''/lib'' = 1"
    by (simp add: getFolderCount_def endsWith_def startsWith_def)
  moreover have "getFolderCount [(''/src/a.py'', 2), (''/src/b.py'', 3), (''/lib/c.py'', 1)] ''/s'' = 0"
    by (simp add: getFolderCount_def endsWith_def startsWith_def)
  ultimately show ?thesis using general by blast
qed

text \<open>
  The claim as stated (the count of every folder path is the sum over the files whose
  path starts with the folder path followed by the separator) fails for the empty folder
  path, which the guard answers with 0, and for a folder path that already ends with the
  separator, which is used as the prefix unchanged.
\<close>

theorem getFolderCount_counterexample:
  "getFolderCount [(''/a.py'', 1)] [] \<noteq>
     sum_list (map snd (filter (\<lambda>(p, v). prefix ([] @ ''/'') p) [(''/a.py'', 1)]))
   \<and> getFolderCount [(''/src/a.py'', 2)] ''/src/'' \<noteq>
     sum_list (map snd (filter (\<lambda>(p, v). prefix (''/src/'' @ ''/'') p) [(''/src/a.py'', 2)]))"
  by (simp add: getFolderCount_def endsWith_def startsWith_def)

section \<open>Tree builder from directory entries: the loop\<close>

lemma pop_closed_dropWhile:
  "pop_closed h lvl st = dropWhile (\<lambda>a. lvl \<le> h_level (h ! a)) st"
  by (induction st) auto

lemma buildTree_loop_snoc_step:
  "buildTree_loop (es @ [e]) = buildTree_step e (buildTree_loop es)"
  by (simp add: buildTree_loop_def)

lemma entry_of_new_node [simp]: "entry_of (new_node e) = e"
  by (simp add: entry_of_def new_node_def)

lemma entry_of_children_update [simp]: "entry_of (n\<lparr>h_children := c\<rparr>) = entry_of n"
  by (simp add: entry_of_def)

lemma inv_length: "build_inv es s \<Longrightarrow> length (heap s) = length es"
  by (metis build_inv_def length_map)

lemma inv_level:
  assumes "build_inv es s" and "a < length es"
  shows "h_level (heap s ! a) = e_level (es ! a)"
proof -
  from assms have "es ! a = entry_of (heap s ! a)"
    by (metis build_inv_def inv_length nth_map)
  then show ?thesis by (simp add: entry_of_def)
qed

lemma open_after_pop:
  assumes "build_inv es s"
  shows "pop_closed (heap s @ [new_node e]) (e_level e) (stack s) =
           dropWhile (\<lambda>a. e_level e \<le> e_level (es ! a)) (stack s)"
proof -
  have "h_level ((heap s @ [new_node e]) ! a) = e_level (es ! a)" if "a \<in> set (stack s)" for a
  proof -
    from that assms have "a < length es" by (simp add: build_inv_def)
    with assms show ?thesis by (simp add: nth_append inv_length inv_level)
  qed
  then show ?thesis
    unfolding pop_closed_dropWhile by (intro dropWhile_cong) auto
qed

lemma step_state:
  fixes e :: DirectoryEntry
  assumes inv: "build_inv es s"
  defines "opn \<equiv> dropWhile (\<lambda>a. e_level e \<le> e_level (es ! a)) (stack s)"
  shows "stack (buildTree_step e s) = (if e_kind e = Folder then length es # opn else opn)"
    and "tree (buildTree_step e s) = (if opn = [] then tree s @ [length es] else tree s)"
    and "heap (buildTree_step e s) =
           (if opn = [] then heap s
            else (heap s)[hd opn := (heap s ! hd opn)\<lparr>h_children :=
                   Some ((case h_children (heap s ! hd opn) of None \<Rightarrow> [] | Some cs \<Rightarrow> cs) @ [length es])\<rparr>])
           @ [new_node e]"
proof -
  have pop: "pop_closed (heap s @ [new_node e]) (e_level e) (stack s) = opn"
    unfolding opn_def by (rule open_after_pop [OF inv])
  have len: "length (heap s) = length es" by (rule inv_length [OF inv])
  show "stack (buildTree_step e s) = (if e_kind e = Folder then length es # opn else opn)"
    by (simp add: buildTree_step_def Let_def pop len)
  show "tree (buildTree_step e s) = (if opn = [] then tree s @ [length es] else tree s)"
    by (simp add: buildTree_step_def Let_def pop len)
  have "hd opn < length (heap s)" if "opn \<noteq> []"
  proof -
    from that have "hd opn \<in> set (stack s)"
      unfolding opn_def by (metis hd_in_set set_dropWhileD)
    with inv len show ?thesis by (simp add: build_inv_def)
  qed
  then show "heap (buildTree_step e s) =
           (if opn = [] then heap s
            else (heap s)[hd opn := (heap s ! hd opn)\<lparr>h_children :=
                   Some ((case h_children (heap s ! hd opn) of None \<Rightarrow> [] | Some cs \<Rightarrow> cs) @ [length es])\<rparr>])
           @ [new_node e]"
    by (simp add: buildTree_step_def Let_def pop len push_child_def list_update_append1 nth_append)
qed

lemma open_subset: "set (dropWhile P st) \<subseteq> set st"
  by (meson set_dropWhileD subsetI)

lemma inv_step:
  assumes inv: "build_inv es s"
  shows "build_inv (es @ [e]) (buildTree_step e s)"
proof -
  define opn where "opn = dropWhile (\<lambda>a. e_level e \<le> e_level (es ! a)) (stack s)"
  define n where "n = length es"
  define h where "h = heap s"
  define s' where "s' = buildTree_step e s"
  have len: "length h = n" unfolding h_def n_def by (rule inv_length [OF inv])
  have st: "stack s' = (if e_kind e = Folder then n # opn else opn)"
    and tr: "tree s' = (if opn = [] then tree s @ [n] else tree s)"
    and hp: "heap s' =
           (if opn = [] then h
            else h[hd opn := (h ! hd opn)\<lparr>h_children :=
                   Some ((case h_children (h ! hd opn) of None \<Rightarrow> [] | Some cs \<Rightarrow> cs) @ [n])\<rparr>])
           @ [new_node e]"
    unfolding s'_def opn_def n_def h_def by (rule step_state [OF inv])+
  have sub: "set opn \<subseteq> set (stack s)" unfolding opn_def by (rule open_subset)
  have stk: "a < n \<and> h_kind (h ! a) = Folder" if "a \<in> set (stack s)" for a
    using inv that unfolding build_inv_def n_def h_def by blast
  have hd_ok: "hd opn < n \<and> h_kind (h ! hd opn) = Folder" if "opn \<noteq> []"
    using that sub stk by (meson hd_in_set subsetD)
  have kinds: "(h_kind (h ! a) = Folder) = (h_children (h ! a) \<noteq> None)" if "a < n" for a
    using inv that unfolding build_inv_def n_def h_def by blast
  have kids: "a < c \<and> c < n"
    if "a < n" "c \<in> set (case h_children (h ! a) of None \<Rightarrow> [] | Some cs \<Rightarrow> cs)" for a c
    using inv that unfolding build_inv_def n_def h_def by blast
  have nth': "heap s' ! a =
      (if a = n then new_node e
       else if opn \<noteq> [] \<and> a = hd opn
       then (h ! a)\<lparr>h_children := Some ((case h_children (h ! a) of None \<Rightarrow> [] | Some cs \<Rightarrow> cs) @ [n])\<rparr>
       else h ! a)" if "a < Suc n" for a
    using that len hd_ok by (auto simp: hp nth_append nth_list_update)
  have 1: "map entry_of (heap s') = es @ [e]"
  proof -
    have "map entry_of h = es" using inv unfolding build_inv_def h_def by blast
    moreover have "(map entry_of h)[hd opn := entry_of (h ! hd opn)] = map entry_of h"
      by (metis list_update_beyond list_update_id map_update not_le_imp_less nth_map length_map)
    ultimately show ?thesis by (simp add: hp map_update)
  qed
  have 2: "\<forall>a \<in> set (stack s'). a < length (es @ [e]) \<and> h_kind (heap s' ! a) = Folder"
  proof
    fix a assume a: "a \<in> set (stack s')"
    show "a < length (es @ [e]) \<and> h_kind (heap s' ! a) = Folder"
    proof (cases "a = n")
      case True
      with a st sub stk have "e_kind e = Folder" by (auto split: if_splits)
      with True show ?thesis by (simp add: nth' n_def [symmetric] new_node_def)
    next
      case False
      with a st sub have "a \<in> set (stack s)" by (auto split: if_splits)
      from stk [OF this] have an: "a < n" and fo: "h_kind (h ! a) = Folder" by simp_all
      from an have "a < Suc n" by simp
      with False have "h_kind (heap s' ! a) = h_kind (h ! a)" by (simp add: nth')
      with an fo show ?thesis by (simp add: n_def)
    qed
  qed
  have 3: "\<forall>a \<in> set (tree s'). a < length (es @ [e])"
  proof
    fix a assume "a \<in> set (tree s')"
    then have "a = n \<or> a \<in> set (tree s)" by (simp add: tr split: if_splits)
    moreover have "\<forall>a \<in> set (tree s). a < n"
      using inv unfolding build_inv_def n_def by blast
    ultimately show "a < length (es @ [e])" by (auto simp: n_def)
  qed
  have 4: "\<forall>a < length (es @ [e]). (h_kind (heap s' ! a) = Folder) = (h_children (heap s' ! a) \<noteq> None)"
  proof (intro allI impI)
    fix a assume "a < length (es @ [e])"
    then have a: "a < Suc n" by (simp add: n_def)
    show "(h_kind (heap s' ! a) = Folder) = (h_children (heap s' ! a) \<noteq> None)"
    proof (cases "a = n")
      case True
      then show ?thesis by (simp add: nth' new_node_def)
    next
      case False
      with a have an: "a < n" by simp
      show ?thesis
      proof (cases "opn \<noteq> [] \<and> a = hd opn")
        case True
        with hd_ok have fo: "h_kind (h ! a) = Folder" by blast
        from True \<open>a \<noteq> n\<close> nth' [OF a]
        have "heap s' ! a = (h ! a)\<lparr>h_children :=
                Some ((case h_children (h ! a) of None \<Rightarrow> [] | Some cs \<Rightarrow> cs) @ [n])\<rparr>"
          by presburger
        with fo show ?thesis by simp
      next
        case False
        with \<open>a \<noteq> n\<close> nth' [OF a] have "heap s' ! a = h ! a" by presburger
        with kinds [OF an] show ?thesis by simp
      qed
    qed
  qed
  have 5: "\<forall>a < length (es @ [e]). \<forall>c \<in> set (case h_children (heap s' ! a) of None \<Rightarrow> [] | Some cs \<Rightarrow> cs).
            a < c \<and> c < length (es @ [e])"
  proof (intro allI impI ballI)
    fix a c assume "a < length (es @ [e])"
      and c: "c \<in> set (case h_children (heap s' ! a) of None \<Rightarrow> [] | Some cs \<Rightarrow> cs)"
    then have a: "a < Suc n" by (simp add: n_def)
    show "a < c \<and> c < length (es @ [e])"
    proof (cases "a = n")
      case True
      with c show ?thesis by (simp add: nth' new_node_def split: if_splits)
    next
      case False
      with a have an: "a < n" by simp
      show ?thesis
      proof (cases "opn \<noteq> [] \<and> a = hd opn")
        case True
        with \<open>a \<noteq> n\<close> nth' [OF a]
        have "heap s' ! a = (h ! a)\<lparr>h_children :=
                Some ((case h_children (h ! a) of None \<Rightarrow> [] | Some cs \<Rightarrow> cs) @ [n])\<rparr>"
          by presburger
        with c have "c = n \<or> c \<in> set (case h_children (h ! a) of None \<Rightarrow> [] | Some cs \<Rightarrow> cs)"
          by auto
        then show ?thesis
        proof
          assume "c = n"
          with an show ?thesis by (simp add: n_def)
        next
          assume "c \<in> set (case h_children (h ! a) of None \<Rightarrow> [] | Some cs \<Rightarrow> cs)"
          from kids [OF an this] show ?thesis by (simp add: n_def)
        qed
      next
        case False
        with \<open>a \<noteq> n\<close> nth' [OF a] have "heap s' ! a = h ! a" by presburger
        with c have "c \<in> set (case h_children (h ! a) of None \<Rightarrow> [] | Some cs \<Rightarrow> cs)"
          by simp
        from kids [OF an this] show ?thesis by (simp add: n_def)
      qed
    qed
  qed
  from 1 2 3 4 5 show ?thesis unfolding build_inv_def s'_def by blast
qed

lemma inv_loop: "build_inv es (buildTree_loop es)"
proof (induction es rule: rev_induct)
  case Nil
  show ?case by (simp add: build_inv_def buildTree_loop_def)
next
  case (snoc e es)
  then show ?case by (simp add: buildTree_loop_snoc_step inv_step)
qed


lemma those_map_Some:
  assumes "\<forall>x \<in> set xs. \<exists>y. f x = Some y"
  shows "\<exists>ys. those (map f xs) = Some ys"
  using assms by (induction xs) auto

lemma those_map_all:
  assumes "those (map f xs) = Some ys" and "\<forall>x \<in> set xs. \<forall>y. f x = Some y \<longrightarrow> P y"
  shows "list_all P ys"
  using assms
proof (induction xs arbitrary: ys)
  case Nil
  then show ?case by simp
next
  case (Cons x xs)
  then show ?case by (auto split: option.splits)
qed

lemma reify_unfold:
  "reify h a =
     (if length h \<le> a then None
      else
        (case h_children (h ! a) of
           None \<Rightarrow>
             Some (TreeNode (h_name (h ! a)) (h_path (h ! a)) (h_kind (h ! a)) (h_level (h ! a))
                     (h_supported (h ! a)) None)
         | Some cs \<Rightarrow>
             (if \<exists>c \<in> set cs. c \<le> a then None
              else map_option
                     (\<lambda>ts. TreeNode (h_name (h ! a)) (h_path (h ! a)) (h_kind (h ! a)) (h_level (h ! a))
                             (h_supported (h ! a)) (Some ts))
                     (those (map (reify h) cs)))))"
  by (rule reify.simps)

lemma reify_leaf:
  assumes "a < length h" and "h_children (h ! a) = None"
  shows "reify h a =
           Some (TreeNode (h_name (h ! a)) (h_path (h ! a)) (h_kind (h ! a)) (h_level (h ! a))
                   (h_supported (h ! a)) None)"
proof -
  from assms(1) have "\<not> length h \<le> a" by simp
  with assms(2) show ?thesis
    by (simp only: reify_unfold [of h a] if_False option.case)
qed

lemma reify_folder:
  assumes "a < length h" and "h_children (h ! a) = Some cs" and "\<forall>c \<in> set cs. a < c"
  shows "reify h a =
           map_option
             (\<lambda>ts. TreeNode (h_name (h ! a)) (h_path (h ! a)) (h_kind (h ! a)) (h_level (h ! a))
                     (h_supported (h ! a)) (Some ts))
             (those (map (reify h) cs))"
proof -
  from assms(1) have 1: "\<not> length h \<le> a" by simp
  from assms(3) have 2: "\<not> (\<exists>c \<in> set cs. c \<le> a)" by (meson not_le)
  from 1 2 assms(2) show ?thesis
    by (simp only: reify_unfold [of h a] if_False option.case)
qed

lemma reify_None_range: "length h \<le> a \<Longrightarrow> reify h a = None"
  by (simp only: reify_unfold [of h a] if_True)

lemma reify_None_back:
  assumes "h_children (h ! a) = Some cs" and "\<exists>c \<in> set cs. c \<le> a"
  shows "reify h a = None"
proof (cases "length h \<le> a")
  case True
  then show ?thesis by (rule reify_None_range)
next
  case False
  with assms show ?thesis
    by (simp only: reify_unfold [of h a] if_False if_True option.case)
qed

lemma reify_total:
  assumes kids: "\<forall>a < length h. \<forall>c \<in> set (case h_children (h ! a) of None \<Rightarrow> [] | Some cs \<Rightarrow> cs).
                   a < c \<and> c < length h"
      and "a < length h"
  shows "\<exists>t. reify h a = Some t"
  using \<open>a < length h\<close>
proof (induction "length h - a" arbitrary: a rule: less_induct)
  case less
  show ?case
  proof (cases "h_children (h ! a)")
    case None
    with less.prems show ?thesis by (simp add: reify_leaf)
  next
    case (Some cs)
    from kids less.prems
    have "\<forall>c \<in> set (case h_children (h ! a) of None \<Rightarrow> [] | Some cs \<Rightarrow> cs). a < c \<and> c < length h"
      by blast
    with Some have range: "\<forall>c \<in> set cs. a < c \<and> c < length h" by simp
    have "\<forall>c \<in> set cs. \<exists>t. reify h c = Some t"
    proof
      fix c assume "c \<in> set cs"
      with range have "a < c" and "c < length h" by simp_all
      then have "length h - c < length h - a" by simp
      then show "\<exists>t. reify h c = Some t" using \<open>c < length h\<close> by (rule less.hyps)
    qed
    then obtain ts where ts: "those (map (reify h) cs) = Some ts"
      using those_map_Some by blast
    from range have "\<forall>c \<in> set cs. a < c" by simp
    from reify_folder [OF less.prems Some this] ts show ?thesis by simp
  qed
qed

lemma reify_node_ok:
  assumes kinds: "\<forall>a < length h. (h_kind (h ! a) = Folder) = (h_children (h ! a) \<noteq> None)"
      and "reify h a = Some t"
  shows "node_ok t"
  using \<open>reify h a = Some t\<close>
proof (induction "length h - a" arbitrary: a t rule: less_induct)
  case less
  have a: "a < length h"
  proof (rule ccontr)
    assume "\<not> a < length h"
    then have "reify h a = None" by (intro reify_None_range) simp
    with less.prems show False by simp
  qed
  show ?case
  proof (cases "h_children (h ! a)")
    case None
    with kinds a have "h_kind (h ! a) \<noteq> Folder" by simp
    then have "h_kind (h ! a) = File" by (cases "h_kind (h ! a)") simp_all
    moreover from reify_leaf [OF a None] less.prems
    have "t = TreeNode (h_name (h ! a)) (h_path (h ! a)) (h_kind (h ! a)) (h_level (h ! a))
                 (h_supported (h ! a)) None" by simp
    ultimately show ?thesis by simp
  next
    case (Some cs)
    with kinds a have fo: "h_kind (h ! a) = Folder" by simp
    have fwd: "\<forall>c \<in> set cs. a < c"
    proof (rule ccontr)
      assume "\<not> (\<forall>c \<in> set cs. a < c)"
      then have "\<exists>c \<in> set cs. c \<le> a" by (meson not_le)
      with Some have "reify h a = None" by (rule reify_None_back)
      with less.prems show False by simp
    qed
    from reify_folder [OF a Some fwd] less.prems obtain ts where
      ts: "those (map (reify h) cs) = Some ts" and
      t: "t = TreeNode (h_name (h ! a)) (h_path (h ! a)) (h_kind (h ! a)) (h_level (h ! a))
                (h_supported (h ! a)) (Some ts)"
      by (cases "those (map (reify h) cs)") simp_all
    have "\<forall>c \<in> set cs. \<forall>y. reify h c = Some y \<longrightarrow> node_ok y"
    proof (intro ballI allI impI)
      fix c y assume c: "c \<in> set cs" and y: "reify h c = Some y"
      have "c < length h"
      proof (rule ccontr)
        assume "\<not> c < length h"
        then have "reify h c = None" by (intro reify_None_range) simp
        with y show False by simp
      qed
      moreover from fwd c have "a < c" by simp
      ultimately have "length h - c < length h - a" by simp
      then show "node_ok y" using y by (rule less.hyps)
    qed
    with ts have "list_all node_ok ts" by (rule those_map_all)
    with t fo show ?thesis by simp
  qed
qed

lemma buildTree_total_ok: "\<exists>forest. buildTree entries = Some forest \<and> list_all node_ok forest"
proof -
  define s where "s = buildTree_loop entries"
  have inv: "build_inv entries s" unfolding s_def by (rule inv_loop)
  then have len: "length (heap s) = length entries" by (rule inv_length)
  from inv have kids0: "\<forall>a < length entries.
      \<forall>c \<in> set (case h_children (heap s ! a) of None \<Rightarrow> [] | Some cs \<Rightarrow> cs). a < c \<and> c < length entries"
    unfolding build_inv_def by (elim conjE)
  have kids: "\<forall>a < length (heap s).
      \<forall>c \<in> set (case h_children (heap s ! a) of None \<Rightarrow> [] | Some cs \<Rightarrow> cs). a < c \<and> c < length (heap s)"
    unfolding len by (rule kids0)
  from inv have "\<forall>a < length entries.
      (h_kind (heap s ! a) = Folder) = (h_children (heap s ! a) \<noteq> None)"
    unfolding build_inv_def by (elim conjE)
  then have kinds: "\<forall>a < length (heap s).
      (h_kind (heap s ! a) = Folder) = (h_children (heap s ! a) \<noteq> None)"
    by (simp only: len)
  from inv have "\<forall>a \<in> set (tree s). a < length entries"
    unfolding build_inv_def by (elim conjE)
  then have roots: "\<forall>a \<in> set (tree s). a < length (heap s)" by (simp only: len)
  have "\<forall>a \<in> set (tree s). \<exists>t. reify (heap s) a = Some t"
  proof
    fix a assume "a \<in> set (tree s)"
    with roots have "a < length (heap s)" by blast
    with kids show "\<exists>t. reify (heap s) a = Some t" by (rule reify_total)
  qed
  then obtain forest where f: "those (map (reify (heap s)) (tree s)) = Some forest"
    using those_map_Some by blast
  have "\<forall>a \<in> set (tree s). \<forall>y. reify (heap s) a = Some y \<longrightarrow> node_ok y"
    using reify_node_ok [OF kinds] by blast
  with f have "list_all node_ok forest" by (rule those_map_all)
  with f show ?thesis by (simp add: buildTree_def s_def)
qed


lemma step_attach:
  fixes e :: DirectoryEntry
  assumes inv: "build_inv es s"
      and opn: "dropWhile (\<lambda>a. e_level e \<le> e_level (es ! a)) (stack s) = p # rest"
  shows "tree (buildTree_step e s) = tree s"
    and "stack (buildTree_step e s) = (if e_kind e = Folder then length es # p # rest else p # rest)"
    and "\<exists>cs. h_children (heap s ! p) = Some cs
            \<and> h_children (heap (buildTree_step e s) ! p) = Some (cs @ [length es])"
proof -
  show "tree (buildTree_step e s) = tree s"
    by (simp add: step_state(2) [OF inv] opn)
  show "stack (buildTree_step e s) = (if e_kind e = Folder then length es # p # rest else p # rest)"
    by (simp add: step_state(1) [OF inv] opn)
  have "p \<in> set (stack s)"
    by (metis opn list.set_intros(1) set_dropWhileD)
  with inv have p: "p < length es" and fo: "h_kind (heap s ! p) = Folder"
    unfolding build_inv_def by blast+
  from inv p have "(h_kind (heap s ! p) = Folder) = (h_children (heap s ! p) \<noteq> None)"
    unfolding build_inv_def by blast
  with fo obtain cs where cs: "h_children (heap s ! p) = Some cs" by auto
  have len: "length (heap s) = length es" by (rule inv_length [OF inv])
  have "heap (buildTree_step e s) =
          (heap s)[p := (heap s ! p)\<lparr>h_children := Some (cs @ [length es])\<rparr>] @ [new_node e]"
    by (simp add: step_state(3) [OF inv] opn cs)
  with p len have "h_children (heap (buildTree_step e s) ! p) = Some (cs @ [length es])"
    by (simp add: nth_append)
  with cs show "\<exists>cs. h_children (heap s ! p) = Some cs
            \<and> h_children (heap (buildTree_step e s) ! p) = Some (cs @ [length es])"
    by blast
qed

lemma buildTree_empty: "buildTree [] = Some []"
  by (simp add: buildTree_def buildTree_loop_def)

lemma stack_folders:
  "list_all (\<lambda>a. a < length entries \<and> e_kind (entries ! a) = Folder) (stack (buildTree_loop entries))"
proof -
  have inv: "build_inv entries (buildTree_loop entries)" by (rule inv_loop)
  have "a < length entries \<and> e_kind (entries ! a) = Folder"
    if "a \<in> set (stack (buildTree_loop entries))" for a
  proof -
    from inv that have a: "a < length entries" and fo: "h_kind (heap (buildTree_loop entries) ! a) = Folder"
      unfolding build_inv_def by blast+
    from inv a have "entries ! a = entry_of (heap (buildTree_loop entries) ! a)"
      by (metis build_inv_def inv_length nth_map)
    with a fo show ?thesis by (simp add: entry_of_def)
  qed
  then show ?thesis by (simp add: list_all_iff)
qed

text \<open>
  Claim C2. The loop starts from the empty store, forest and stack, and the stored nodes
  are the entries in input order. Processing one more entry \<open>e\<close> after \<open>entries\<close>: the stack
  is popped while the level of its top is at least the level of \<open>e\<close>; if it is then empty
  the new node is appended to the root forest, otherwise it is appended as the last child
  of the new top; the new node is pushed exactly when \<open>e\<close> is a folder, so the stack holds
  folders only. For the entries folder a at level 0, folder b at level 1, file c at level
  2 and file d at level 0 the forest has the two roots a and d, b under a and c under b.
\<close>

theorem buildTree_stack_discipline:
  "buildTree_loop [] = \<lparr>heap = [], tree = [], stack = []\<rparr>
   \<and> map entry_of (heap (buildTree_loop entries)) = entries
   \<and> list_all (\<lambda>a. a < length entries \<and> e_kind (entries ! a) = Folder) (stack (buildTree_loop entries))
   \<and> (let s = buildTree_loop entries; s' = buildTree_loop (entries @ [e]); n = length entries;
          opn = dropWhile (\<lambda>a. e_level e \<le> e_level (entries ! a)) (stack s)
      in stack s' = (if e_kind e = Folder then n # opn else opn)
       \<and> tree s' = (if opn = [] then tree s @ [n] else tree s)
       \<and> map h_children (heap s') =
           (if opn = [] then map h_children (heap s)
            else (map h_children (heap s))[hd opn :=
                   Some ((case h_children (heap s ! hd opn) of None \<Rightarrow> [] | Some cs \<Rightarrow> cs) @ [n])])
           @ [if e_kind e = Folder then Some [] else None])
   \<and> buildTree [dir_entry Folder ''a'' 0, dir_entry Folder ''b'' 1, dir_entry File ''c'' 2,
                 dir_entry File ''d'' 0] =
       Some [TreeNode ''a'' ''a'' Folder 0 None
               (Some [TreeNode ''b'' ''b'' Folder 1 None (Some [TreeNode ''c'' ''c'' File 2 None None])]),
             TreeNode ''d'' ''d'' File 0 None None]"
proof -
  have inv: "build_inv entries (buildTree_loop entries)" by (rule inv_loop)
  have 1: "buildTree_loop [] = \<lparr>heap = [], tree = [], stack = []\<rparr>"
    by (simp add: buildTree_loop_def)
  from inv have 2: "map entry_of (heap (buildTree_loop entries)) = entries"
    unfolding build_inv_def by (elim conjE)
  note 3 = stack_folders [of entries]
  have ch: "h_children (new_node e) = (if e_kind e = Folder then Some [] else None)"
    by (simp add: new_node_def)
  have 4: "(let s = buildTree_loop entries; s' = buildTree_loop (entries @ [e]); n = length entries;
          opn = dropWhile (\<lambda>a. e_level e \<le> e_level (entries ! a)) (stack s)
      in stack s' = (if e_kind e = Folder then n # opn else opn)
       \<and> tree s' = (if opn = [] then tree s @ [n] else tree s)
       \<and> map h_children (heap s') =
           (if opn = [] then map h_children (heap s)
            else (map h_children (heap s))[hd opn :=
                   Some ((case h_children (heap s ! hd opn) of None \<Rightarrow> [] | Some cs \<Rightarrow> cs) @ [n])])
           @ [if e_kind e = Folder then Some [] else None])"
    unfolding Let_def buildTree_loop_snoc_step step_state [OF inv]
    by (simp add: map_update ch)
  have 5: "buildTree [dir_entry Folder ''a'' 0, dir_entry Folder ''b'' 1, dir_entry File ''c'' 2,
                 dir_entry File ''d'' 0] =
       Some [TreeNode ''a'' ''a'' Folder 0 None
               (Some [TreeNode ''b'' ''b'' Folder 1 None (Some [TreeNode ''c'' ''c'' File 2 None None])]),
             TreeNode ''d'' ''d'' File 0 None None]"
    by (simp add: buildTree_def buildTree_loop_def buildTree_step_def dir_entry_def new_node_def
          push_child_def Let_def reify_unfold)
  from 1 2 3 4 5 show ?thesis by (intro conjI)
qed

text \<open>
  Claim C7. The empty sequence gives the empty forest. When the top \<open>p\<close> of the stack has
  a level below the level of the next entry, by whatever difference, the entry becomes
  the last child of \<open>p\<close> and the root forest is unchanged. Two consecutive entries of one
  level above the level of \<open>p\<close> both become children of \<open>p\<close>, in order. For folder a at
  level 0 followed by files x and y at level 1, x and y are the children of a; a file at
  level 3 right after folder a at level 0 is a child of a.
\<close>

theorem buildTree_nearest_ancestor:
  "buildTree [] = Some []
   \<and> (stack (buildTree_loop entries) = p # rest \<and> e_level (entries ! p) < e_level e \<longrightarrow>
        tree (buildTree_loop (entries @ [e])) = tree (buildTree_loop entries)
        \<and> (\<exists>cs. h_children (heap (buildTree_loop entries) ! p) = Some cs
              \<and> h_children (heap (buildTree_loop (entries @ [e])) ! p) = Some (cs @ [length entries])))
   \<and> (stack (buildTree_loop entries) = p # rest \<and> e_level (entries ! p) < e_level e1
        \<and> e_level e2 = e_level e1 \<longrightarrow>
        tree (buildTree_loop (entries @ [e1, e2])) = tree (buildTree_loop entries)
        \<and> (\<exists>cs. h_children (heap (buildTree_loop entries) ! p) = Some cs
              \<and> h_children (heap (buildTree_loop (entries @ [e1, e2])) ! p) =
                  Some (cs @ [length entries, Suc (length entries)])))
   \<and> buildTree [dir_entry Folder ''a'' 0, dir_entry File ''x'' 1, dir_entry File ''y'' 1] =
       Some [TreeNode ''a'' ''a'' Folder 0 None
               (Some [TreeNode ''x'' ''x'' File 1 None None, TreeNode ''y'' ''y'' File 1 None None])]
   \<and> buildTree [dir_entry Folder ''a'' 0, dir_entry File ''x'' 3] =
       Some [TreeNode ''a'' ''a'' Folder 0 None (Some [TreeNode ''x'' ''x'' File 3 None None])]"
proof -
  define s where "s = buildTree_loop entries"
  have inv: "build_inv entries s" unfolding s_def by (rule inv_loop)
  have A: "tree (buildTree_step e s) = tree s
        \<and> (\<exists>cs. h_children (heap s ! p) = Some cs
              \<and> h_children (heap (buildTree_step e s) ! p) = Some (cs @ [length entries]))"
    if st: "stack s = p # rest" and lv: "e_level (entries ! p) < e_level e"
  proof -
    from st lv have "dropWhile (\<lambda>a. e_level e \<le> e_level (entries ! a)) (stack s) = p # rest"
      by simp
    from step_attach(1) [OF inv this] step_attach(3) [OF inv this] show ?thesis by blast
  qed
  have B: "tree (buildTree_step e2 (buildTree_step e1 s)) = tree s
        \<and> (\<exists>cs. h_children (heap s ! p) = Some cs
              \<and> h_children (heap (buildTree_step e2 (buildTree_step e1 s)) ! p) =
                  Some (cs @ [length entries, Suc (length entries)]))"
    if st: "stack s = p # rest" and lv: "e_level (entries ! p) < e_level e1"
      and eq: "e_level e2 = e_level e1"
  proof -
    define s1 where "s1 = buildTree_step e1 s"
    from st lv have d1: "dropWhile (\<lambda>a. e_level e1 \<le> e_level (entries ! a)) (stack s) = p # rest"
      by simp
    have inv1: "build_inv (entries @ [e1]) s1" unfolding s1_def by (rule inv_step [OF inv])
    have t1: "tree s1 = tree s" unfolding s1_def by (rule step_attach(1) [OF inv d1])
    have st1: "stack s1 = (if e_kind e1 = Folder then length entries # p # rest else p # rest)"
      unfolding s1_def by (rule step_attach(2) [OF inv d1])
    from step_attach(3) [OF inv d1] obtain cs where
      cs: "h_children (heap s ! p) = Some cs" and
      cs1: "h_children (heap s1 ! p) = Some (cs @ [length entries])"
      unfolding s1_def by blast
    have "p \<in> set (stack s)" by (simp add: st)
    with inv have p: "p < length entries" unfolding build_inv_def by blast
    with lv eq have keep: "\<not> e_level e2 \<le> e_level ((entries @ [e1]) ! p)"
      by (simp add: nth_append)
    from eq have popn: "e_level e2 \<le> e_level ((entries @ [e1]) ! length entries)" by simp
    from keep popn have d2:
      "dropWhile (\<lambda>a. e_level e2 \<le> e_level ((entries @ [e1]) ! a)) (stack s1) = p # rest"
      by (simp add: st1)
    have t2: "tree (buildTree_step e2 s1) = tree s1" by (rule step_attach(1) [OF inv1 d2])
    from step_attach(3) [OF inv1 d2] cs1
    have "h_children (heap (buildTree_step e2 s1) ! p) = Some (cs @ [length entries, Suc (length entries)])"
      by auto
    with cs t1 t2 show ?thesis unfolding s1_def by simp
  qed
  have two: "buildTree_loop (entries @ [e1, e2]) = buildTree_step e2 (buildTree_step e1 s)"
    by (simp add: buildTree_loop_def s_def)
  have C: "buildTree [dir_entry Folder ''a'' 0, dir_entry File ''x'' 1, dir_entry File ''y'' 1] =
       Some [TreeNode ''a'' ''a'' Folder 0 None
               (Some [TreeNode ''x'' ''x'' File 1 None None, TreeNode ''y'' ''y'' File 1 None None])]"
    by (simp add: buildTree_def buildTree_loop_def buildTree_step_def dir_entry_def new_node_def
          push_child_def Let_def reify_unfold)
  have D: "buildTree [dir_entry Folder ''a'' 0, dir_entry File ''x'' 3] =
       Some [TreeNode ''a'' ''a'' Folder 0 None (Some [TreeNode ''x'' ''x'' File 3 None None])]"
    by (simp add: buildTree_def buildTree_loop_def buildTree_step_def dir_entry_def new_node_def
          push_child_def Let_def reify_unfold)
  have E: "buildTree [] = Some []" by (rule buildTree_empty)
  from A B C D E show ?thesis
    unfolding two buildTree_loop_snoc_step s_def [symmetric] by blast
qed

theorem buildTree_nearest_ancestor_witness:
  "stack (buildTree_loop [dir_entry Folder ''a'' 0]) = [0]
   \<and> e_level ([dir_entry Folder ''a'' 0] ! 0) < e_level (dir_entry File ''x'' 3)
   \<and> h_children (heap (buildTree_loop ([dir_entry Folder ''a'' 0] @ [dir_entry File ''x'' 3])) ! 0) = Some [1]
   \<and> e_level (dir_entry Folder ''y'' 3) = e_level (dir_entry File ''x'' 3)
   \<and> h_children (heap (buildTree_loop ([dir_entry Folder ''a'' 0] @ [dir_entry File ''x'' 3, dir_entry Folder ''y'' 3])) ! 0)
       = Some [1, 2]"
proof -
  have st: "stack (buildTree_loop [dir_entry Folder ''a'' 0]) = [0]"
    by (simp add: buildTree_loop_def buildTree_step_def dir_entry_def new_node_def Let_def)
  have ch: "h_children (heap (buildTree_loop [dir_entry Folder ''a'' 0]) ! 0) = Some []"
    by (simp add: buildTree_loop_def buildTree_step_def dir_entry_def new_node_def Let_def)
  have lv: "e_level ([dir_entry Folder ''a'' 0] ! 0) < e_level (dir_entry File ''x'' 3)"
    by (simp add: dir_entry_def)
  have eq: "e_level (dir_entry Folder ''y'' 3) = e_level (dir_entry File ''x'' 3)"
    by (simp add: dir_entry_def)
  from buildTree_nearest_ancestor [of "[dir_entry Folder ''a'' 0]" 0 "[]" "dir_entry File ''x'' 3"
      "dir_entry File ''x'' 3" "dir_entry Folder ''y'' 3"] st lv eq ch
  show ?thesis by simp
qed

section \<open>Tree builder from file paths: order and invariants\<close>

lemma toNode_Trie:
  "toNode (Trie n p k ch) level =
     TreeNode n p k level None (if k = Folder then Some (toNodes ch (level + 1)) else None)"
proof -
  have "the (fmlookup (fmmap toNode ch) key) (level + 1) = toNode (the (fmlookup ch key)) (level + 1)"
    if "key \<in> set (sorted_list_of_fset (fmdom ch))" for key
  proof -
    from that have "key |\<in>| fmdom ch" by simp
    then obtain t where "fmlookup ch key = Some t" by (auto simp: fmlookup_dom_iff)
    then show ?thesis by simp
  qed
  then show ?thesis by (simp add: toNodes_def cong: map_cong)
qed

declare toNode.simps [simp del]

lemma toNode_fields [simp]:
  "n_name (toNode t level) = t_name t"
  "n_kind (toNode t level) = t_kind t"
  "n_path (toNode t level) = t_path t"
  "n_level (toNode t level) = level"
  by (cases t; simp add: toNode_Trie)+

lemma toNode_ok: "node_ok (toNode t level)"
proof (induction t arbitrary: level)
  case (Trie n p k ch)
  have "node_ok (toNode (the (fmlookup ch key)) (level + 1))"
    if "key \<in> set (sorted_list_of_fset (fmdom ch))" for key
  proof -
    from that have "key |\<in>| fmdom ch" by simp
    then obtain t where t: "fmlookup ch key = Some t" by (auto simp: fmlookup_dom_iff)
    then have "t \<in> fmran' ch" by (rule fmran'I)
    with t show ?thesis by (simp add: Trie.IH)
  qed
  then have "list_all node_ok (toNodes ch (level + 1))"
    by (simp add: toNodes_def list_all_iff)
  then show ?case by (cases k) (simp_all add: toNode_Trie)
qed

lemma toNodes_ok: "list_all node_ok (toNodes ch level)"
  by (simp add: toNodes_def list_all_iff toNode_ok)



























text \<open>
  Segments that name inherited properties. Under \<^verbatim>\<open>constructor\<close> the loop finds the
  function \<^verbatim>\<open>Object\<close> and creates no node, so the file is missing from the tree. Under
  \<^verbatim>\<open>__proto__\<close> it finds \<^verbatim>\<open>Object.prototype\<close> and gives it a property \<^verbatim>\<open>children\<close>, which
  the segment \<^verbatim>\<open>children\<close> then finds by inheritance: the two orders of /__proto__/x,
  /children/y give different trees, though neither path is a prefix of the other. A later
  call of the builder in the same page shows what was stored there.
\<close>

theorem buildTreeFromFilePaths_inherited_names:
  "fst (buildTreeFromFilePaths fresh_env [''/constructor/x.py'']) = []
   \<and> fst (buildTreeFromFilePaths fresh_env [''/__proto__/x'', ''/children/y'']) = []
   \<and> fst (buildTreeFromFilePaths fresh_env [''/children/y'', ''/__proto__/x'']) =
       [TreeNode ''children'' ''/children'' Folder 0 None
          (Some [TreeNode ''y'' ''/children/y'' File 1 None None])]
   \<and> fst (buildTreeFromFilePaths
            (snd (buildTreeFromFilePaths fresh_env [''/__proto__/x''])) []) =
       [TreeNode ''x'' ''/__proto__/x'' File 0 None None]"
proof -
  have 1: "fst (buildTreeFromFilePaths fresh_env [''/constructor/x.py'']) = []"
    by code_simp
  have 2: "fst (buildTreeFromFilePaths fresh_env [''/__proto__/x'', ''/children/y'']) = []"
    by code_simp
  have 3: "fst (buildTreeFromFilePaths fresh_env [''/children/y'', ''/__proto__/x'']) =
       [TreeNode ''children'' ''/children'' Folder 0 None
          (Some [TreeNode ''y'' ''/children/y'' File 1 None None])]"
    by code_simp
  have 4: "fst (buildTreeFromFilePaths
            (snd (buildTreeFromFilePaths fresh_env [''/__proto__/x''])) []) =
       [TreeNode ''x'' ''/__proto__/x'' File 0 None None]"
    by code_simp
  from 1 2 3 4 show ?thesis by (intro conjI)
qed

text \<open>
  Claim C9. The entry-based builder returns a forest for every sequence of entries, and
  in it, at every depth, a file has no children field and a folder has a children
  sequence; the same holds of every forest the path-based builder returns, whatever the
  environment it is called in.
\<close>

theorem tree_builders_node_invariant:
  "(\<exists>forest. buildTree entries = Some forest \<and> list_all node_ok forest)
   \<and> list_all node_ok (fst (buildTreeFromFilePaths env paths))"
  by (simp add: buildTree_total_ok buildTreeFromFilePaths_def toNodes_ok split_beta)

section \<open>Ingestion: what a failed request does to the result\<close>

lemma run_request_failed:
  "request_failed r \<Longrightarrow> analysisResult (run_request failed done r s) = analysisResult s"
  by (cases r) (simp_all add: request_failed_def run_request_def notify_def)

text \<open>
  Claim C1 (a failed ingestion action leaves the result held before it unchanged), at
  an input where the code does otherwise. The analyze endpoint answers with status 500
  and the JSON body \<^verbatim>\<open>{}\<close>. On the analyzer page \<^verbatim>\<open>onAnalyzeLocal\<close>, and on the editor
  page both branches of the effect, store the body as the new result: they read
  \<^verbatim>\<open>res.json()\<close> without testing \<^verbatim>\<open>res.ok\<close>.
\<close>

theorem onAnalyzeLocal_http_error_replaces_result:
  "request_failed (Response 500 ''{}'' (Inr error_payload))
   \<and> analysisResult analyzer_before = Some prior_result
   \<and> analysisResult (fst (onAnalyzeLocal (Response 500 ''{}'' (Inr error_payload))
         DirRejected analyzer_before)) = Some error_payload
   \<and> analysisResult editor_before = Some prior_result
   \<and> analysisResult (editor_effect None (Some ''/srv/project'')
         (Response 500 ''{}'' (Inr error_payload)) DirRejected editor_before)
       = Some error_payload
   \<and> analysisResult (editor_effect (Some ''https://example.org/repo.git'') None
         (Response 500 ''{}'' (Inr error_payload)) DirRejected editor_before)
       = Some error_payload
   \<and> error_payload \<noteq> prior_result"
proof -
  have 1: "request_failed (Response 500 ''{}'' (Inr error_payload))"
    by (simp add: request_failed_def resp_ok_def)
  have 2: "analysisResult analyzer_before = Some prior_result"
    by (simp add: analyzer_before_def)
  have 3: "analysisResult (fst (onAnalyzeLocal (Response 500 ''{}'' (Inr error_payload))
         DirRejected analyzer_before)) = Some error_payload"
    by (simp add: onAnalyzeLocal_def analyzer_before_def trim_def is_space_def
          fetchDirectoryTree_def Let_def)
  have 4: "analysisResult editor_before = Some prior_result"
    by (simp add: editor_before_def)
  have 5: "analysisResult (editor_effect None (Some ''/srv/project'')
         (Response 500 ''{}'' (Inr error_payload)) DirRejected editor_before)
       = Some error_payload"
    by (simp add: editor_effect_def truthy_def ed_fetchDirectoryTree_def Let_def)
  have 6: "analysisResult (editor_effect (Some ''https://example.org/repo.git'') None
         (Response 500 ''{}'' (Inr error_payload)) DirRejected editor_before)
       = Some error_payload"
    by (simp add: editor_effect_def truthy_def Let_def split_beta)
  have 7: "error_payload \<noteq> prior_result"
    by (simp add: error_payload_def prior_result_def result_with_def)
  from 1 2 3 4 5 6 7 show ?thesis by (intro conjI)
qed

text \<open>
  The handlers of page.tsx test \<^verbatim>\<open>response.ok\<close>: after a failed request, rejected or
  answered with a status that is not a success, the result is the one held before.
\<close>

theorem home_page_failure_keeps_result:
  "request_failed r \<longrightarrow>
     analysisResult (requestAnalysis r s) = analysisResult s
     \<and> analysisResult (handleUploadAnalyze r s) = analysisResult s
     \<and> analysisResult (handleAnalyzeStored r s) = analysisResult s"
  by (simp add: requestAnalysis_def handleUploadAnalyze_def handleAnalyzeStored_def Let_def
        run_request_failed notify_def)

theorem home_page_failure_keeps_result_witness:
  "request_failed (Response 500 ''{}'' (Inr error_payload))
   \<and> analysisResult (requestAnalysis (Response 500 ''{}'' (Inr error_payload)) home_before)
       = Some prior_result
   \<and> analysisResult (handleUploadAnalyze (Rejected ''Failed to fetch'') home_before) = Some prior_result
   \<and> analysisResult (handleAnalyzeStored (Response 404 ''missing'' (Inl ''Unexpected token'')) home_before)
       = Some prior_result"
proof -
  have 1: "request_failed (Response 500 ''{}'' (Inr error_payload))"
    and 2: "request_failed (Rejected ''Failed to fetch'')"
    and 3: "request_failed (Response 404 ''missing'' (Inl ''Unexpected token''))"
    by (simp_all add: request_failed_def resp_ok_def)
  have 4: "analysisResult home_before = Some prior_result" by (simp add: home_before_def)
  from home_page_failure_keeps_result [of "Response 500 ''{}'' (Inr error_payload)" home_before]
       home_page_failure_keeps_result [of "Rejected ''Failed to fetch''" home_before]
       home_page_failure_keeps_result [of "Response 404 ''missing'' (Inl ''Unexpected token'')" home_before]
       1 2 3 4
  show ?thesis by simp
qed


section \<open>Progress indicator: one action, and two in a row\<close>

lemma run_ticks_range:
  assumes "1 \<le> cap" and "\<forall>r \<in> set rs. 0 \<le> r" and "1 \<le> pct s" and "pct s \<le> cap"
  shows "1 \<le> pct (run cap (map Tick rs) s) \<and> pct (run cap (map Tick rs) s) \<le> cap
         \<and> outstanding (run cap (map Tick rs) s) = outstanding s
         \<and> resets (run cap (map Tick rs) s) = resets s"
  using assms(2-)
proof (induction rs arbitrary: s)
  case Nil
  then show ?case by (simp add: run_def)
next
  case (Cons r rs)
  from Cons.prems have r: "0 \<le> r" by simp
  have 1: "1 \<le> pct (interval_tick cap r s)"
    using Cons.prems(2) assms(1) r by (simp add: interval_tick_def min_def)
  have 2: "pct (interval_tick cap r s) \<le> cap"
    using Cons.prems(3) by (simp add: interval_tick_def)
  have 3: "outstanding (interval_tick cap r s) = outstanding s"
          "resets (interval_tick cap r s) = resets s"
    by (simp_all add: interval_tick_def)
  from Cons.prems have "\<forall>r \<in> set rs. 0 \<le> r" by simp
  from Cons.IH [OF this 1 2] 3 show ?case
    by (simp add: run_def step_def)
qed

text \<open>
  One action on its own: from its start, through any number of firings of the interval,
  the value stays between 1 and the ceiling, so above 0 and below 100, and no timeout is
  added; when the request resolves the value is 100.
\<close>

lemma single_action_range:
  assumes "1 \<le> cap" and "cap < 100" and "\<forall>r \<in> set rs. 0 \<le> r"
  shows "0 < pct (run cap (Start # map Tick rs) s)
         \<and> pct (run cap (Start # map Tick rs) s) < 100
         \<and> outstanding (run cap (Start # map Tick rs) s)
         \<and> pct (run cap (Start # map Tick rs @ [Resolve]) s) = 100"
proof -
  have st: "run cap (Start # evs) s = run cap evs (startProgress s)" for evs
    by (simp add: run_def step_def)
  have "1 \<le> pct (startProgress s)" and "pct (startProgress s) \<le> cap"
    using assms(1) by (simp_all add: startProgress_def)
  from run_ticks_range [OF assms(1) assms(3) this]
  have "1 \<le> pct (run cap (map Tick rs) (startProgress s))"
    and "pct (run cap (map Tick rs) (startProgress s)) \<le> cap"
    and "outstanding (run cap (map Tick rs) (startProgress s))"
    by (simp_all add: startProgress_def)
  moreover have "pct (run cap (map Tick rs @ [Resolve]) (startProgress s)) = 100"
    by (simp add: run_def step_def stopProgress_def)
  ultimately show ?thesis
    using assms(2) unfolding st by simp
qed

text \<open>
  Claim C6 (while the request of an action is outstanding the value is above 0 and below
  100, and it returns to 0 only after the action's own completion display), at an input
  where the code does otherwise. On page.tsx a first action starts, the interval fires
  once with \<^verbatim>\<open>Math.random()\<close> giving 0.5, and the request resolves: the value is 5, then
  100, and \<^verbatim>\<open>stopProgress\<close> schedules the timeout. A second action starts before that
  timeout fires; \<^verbatim>\<open>startProgress\<close> clears the interval but not the timeout, which then
  fires while the second request is outstanding and sets the value to 0. The same holds
  with the ceilings 92 and 98 of the analyzer and editor pages.
\<close>

theorem progress_reset_during_next_action:
  "pct (run 90 [Start, Tick (1/2)] idle) = 5
   \<and> pct (run 90 [Start, Tick (1/2), Resolve] idle) = 100
   \<and> outstanding (run 90 [Start, Tick (1/2), Resolve, Start] idle)
   \<and> pct (run 90 [Start, Tick (1/2), Resolve, Start] idle) = 1
   \<and> outstanding (run 90 [Start, Tick (1/2), Resolve, Start, Timeout] idle)
   \<and> pct (run 90 [Start, Tick (1/2), Resolve, Start, Timeout] idle) = 0
   \<and> outstanding (run 92 [Start, Tick (1/2), Resolve, Start, Timeout] idle)
   \<and> pct (run 92 [Start, Tick (1/2), Resolve, Start, Timeout] idle) = 0
   \<and> outstanding (run 98 [Start, Tick (1/2), Resolve, Start, Timeout] idle)
   \<and> pct (run 98 [Start, Tick (1/2), Resolve, Start, Timeout] idle) = 0"
  by (simp add: run_def step_def idle_def startProgress_def interval_tick_def stopProgress_def
        timeout_fires_def)

end
